theory Spec2Isabelle
  imports Main "HOL-Library.Sublist" "HOL-Library.List_Lexorder" "HOL-Library.Char_ord"
begin

section \<open>Strings and character classes\<close>

text \<open>
  A Python \<open>str\<close> is modelled as a \<open>string\<close>, one \<open>char\<close> per code point; the
  development therefore covers texts over the code points 0 to 255. The three
  character predicates below are those of CPython on that range: \<open>str.isspace\<close>
  (used by \<open>str.strip\<close> and by the regular-expression class \<open>\s\<close>), the class
  \<open>\w\<close>, and the case folding that \<open>re.IGNORECASE\<close> applies to a literal.
\<close>

definition is_space :: "char \<Rightarrow> bool" where
  "is_space c \<longleftrightarrow>
     c \<in> set [CHR 0x09, CHR 0x0A, CHR 0x0B, CHR 0x0C, CHR 0x0D, CHR 0x1C, CHR 0x1D,
              CHR 0x1E, CHR 0x1F, CHR 0x20, CHR 0x85, CHR 0xA0]"

definition is_word :: "char \<Rightarrow> bool" where
  "is_word c \<longleftrightarrow>
     (let n = (of_char c :: nat) in
        (48 \<le> n \<and> n \<le> 57) \<or> (65 \<le> n \<and> n \<le> 90) \<or> n = 95 \<or> (97 \<le> n \<and> n \<le> 122) \<or>
        n \<in> set [170, 178, 179, 181, 185, 186, 188, 189, 190] \<or>
        (192 \<le> n \<and> n \<le> 214) \<or> (216 \<le> n \<and> n \<le> 246) \<or> (248 \<le> n \<and> n \<le> 255))"

definition ci_lower :: "char \<Rightarrow> char" where
  "ci_lower c =
     (let n = (of_char c :: nat) in
        if (65 \<le> n \<and> n \<le> 90) \<or> (192 \<le> n \<and> n \<le> 222 \<and> n \<noteq> 215)
        then char_of (n + 32) else c)"

text \<open>\<open>str.strip()\<close>: whitespace removed at both ends.\<close>

definition strip :: "string \<Rightarrow> string" where
  "strip s = rev (dropWhile is_space (rev (dropWhile is_space s)))"

text \<open>
  \<open>str.splitlines()\<close>: a line ends at LF, CR, CR LF, VT, FF, FS, GS, RS or NEL; the
  line break is dropped, and a text that ends with a line break has no empty last line.
\<close>

definition is_linebreak :: "char \<Rightarrow> bool" where
  "is_linebreak c \<longleftrightarrow>
     c \<in> set [CHR 0x0A, CHR 0x0B, CHR 0x0C, CHR 0x0D, CHR 0x1C, CHR 0x1D, CHR 0x1E, CHR 0x85]"

fun splitlines_from :: "string \<Rightarrow> string \<Rightarrow> string list" where
  "splitlines_from cur [] = (if cur = [] then [] else [cur])"
| "splitlines_from cur (c # cs) =
     (if c = CHR 0x0D then
        (case cs of
           [] \<Rightarrow> [cur]
         | d # ds \<Rightarrow> if d = CHR 0x0A then cur # splitlines_from [] ds
                    else cur # splitlines_from [] cs)
      else if is_linebreak c then cur # splitlines_from [] cs
      else splitlines_from (cur @ [c]) cs)"

definition splitlines :: "string \<Rightarrow> string list" where
  "splitlines s = splitlines_from [] s"

section \<open>The regular expressions of the source\<close>

text \<open>
  The patterns of \<open>csv_service.py\<close> use literals, the classes \<open>\s\<close>, \<open>\w\<close>,
  \<open>[\s\S]\<close> and \<open>[^"]\<close>, the repetitions \<open>*\<close>, \<open>+\<close> and \<open>*?\<close> of one class, an
  optional non-capturing group and one capturing group. They are written as syntax
  trees and run by a backtracking matcher with the priorities of Python's \<open>re\<close>: a
  greedy repetition tries the longest run first, a lazy one the shortest, an optional
  group is tried before it is skipped, and the first alternative that lets the rest
  of the pattern match wins.
\<close>

datatype cset = Space | WordC | AnyC | NotQuote

fun in_cset :: "cset \<Rightarrow> char \<Rightarrow> bool" where
  "in_cset Space c = is_space c"
| "in_cset WordC c = is_word c"
| "in_cset AnyC c = True"
| "in_cset NotQuote c = (c \<noteq> CHR 0x22)"

datatype rx =
    Eps
  | Lit char
  | Star cset
  | Plus cset
  | LazyStar cset
  | Opt rx
  | Grp rx
  | Cat rx rx

text \<open>A literal matches up to case when \<open>re.IGNORECASE\<close> is set.\<close>

definition chr_eq :: "bool \<Rightarrow> char \<Rightarrow> char \<Rightarrow> bool" where
  "chr_eq ic a x = (if ic then ci_lower a = ci_lower x else a = x)"

type_synonym mres = "string option \<times> string"

fun star_greedy :: "(char \<Rightarrow> bool) \<Rightarrow> string \<Rightarrow> (string \<Rightarrow> mres option) \<Rightarrow> mres option" where
  "star_greedy p [] k = k []"
| "star_greedy p (x # xs) k =
     (if p x then (case star_greedy p xs k of Some m \<Rightarrow> Some m | None \<Rightarrow> k (x # xs))
      else k (x # xs))"

fun star_lazy :: "(char \<Rightarrow> bool) \<Rightarrow> string \<Rightarrow> (string \<Rightarrow> mres option) \<Rightarrow> mres option" where
  "star_lazy p [] k = k []"
| "star_lazy p (x # xs) k =
     (case k (x # xs) of Some m \<Rightarrow> Some m
      | None \<Rightarrow> if p x then star_lazy p xs k else None)"

text \<open>
  \<open>rmatch r ic s c k\<close> matches \<open>r\<close> at the start of \<open>s\<close>; \<open>c\<close> is the text of
  group 1 so far and \<open>k\<close> the rest of the pattern, which receives the unread text.
\<close>

primrec rmatch ::
  "rx \<Rightarrow> bool \<Rightarrow> string \<Rightarrow> string option \<Rightarrow> (string \<Rightarrow> string option \<Rightarrow> mres option) \<Rightarrow> mres option"
where
  "rmatch Eps ic s c k = k s c"
| "rmatch (Lit a) ic s c k =
     (case s of [] \<Rightarrow> None | x # xs \<Rightarrow> if chr_eq ic a x then k xs c else None)"
| "rmatch (Star cs) ic s c k = star_greedy (in_cset cs) s (\<lambda>s'. k s' c)"
| "rmatch (Plus cs) ic s c k =
     (case s of [] \<Rightarrow> None
      | x # xs \<Rightarrow> if in_cset cs x then star_greedy (in_cset cs) xs (\<lambda>s'. k s' c) else None)"
| "rmatch (LazyStar cs) ic s c k = star_lazy (in_cset cs) s (\<lambda>s'. k s' c)"
| "rmatch (Opt r) ic s c k =
     (case rmatch r ic s c k of Some m \<Rightarrow> Some m | None \<Rightarrow> k s c)"
| "rmatch (Grp r) ic s c k =
     rmatch r ic s c (\<lambda>s' c'. k s' (Some (take (length s - length s') s)))"
| "rmatch (Cat a b) ic s c k = rmatch a ic s c (\<lambda>s' c'. rmatch b ic s' c' k)"

text \<open>\<open>re.search\<close>: the leftmost start at which the pattern matches.\<close>

fun rsearch :: "rx \<Rightarrow> bool \<Rightarrow> string \<Rightarrow> mres option" where
  "rsearch r ic [] = rmatch r ic [] None (\<lambda>s' c. Some (c, s'))"
| "rsearch r ic (x # xs) =
     (case rmatch r ic (x # xs) None (\<lambda>s' c. Some (c, s')) of
        Some m \<Rightarrow> Some m
      | None \<Rightarrow> rsearch r ic xs)"

text \<open>
  \<open>re.findall\<close> for a pattern with one group: the group's text at each match, the
  matches found left to right without overlap. An empty match moves one character on
  (none of the patterns below matches the empty string).
\<close>

function findall :: "rx \<Rightarrow> bool \<Rightarrow> string \<Rightarrow> string list" where
  "findall r ic s =
     (case rsearch r ic s of
        None \<Rightarrow> []
      | Some (c, s') \<Rightarrow>
          (case c of Some g \<Rightarrow> g | None \<Rightarrow> []) #
          (if length s' < length s then findall r ic s'
           else (case s of [] \<Rightarrow> [] | x # xs \<Rightarrow> findall r ic xs)))"
  by pat_completeness auto
termination
  by (relation "measure (\<lambda>(r, ic, s). length s)") auto

declare findall.simps [simp del]

definition seq :: "rx list \<Rightarrow> rx" where
  "seq rs = foldr Cat rs Eps"

definition lits :: "string \<Rightarrow> rx list" where
  "lits s = map Lit s"

section \<open>The analyzer\<close>

text \<open>
  \<open>_extract_actors_from_plantuml\<close>: the sixteen patterns, in the order of the source;
  for each keyword first \<open>keyword\s+"([^"]+)"\<close>, then \<open>keyword\s+(\w+)\<close>.
\<close>

definition quoted_pattern :: "string \<Rightarrow> rx" where
  "quoted_pattern kw =
     seq (lits kw @ [Plus Space, Lit (CHR 0x22), Grp (Plus NotQuote), Lit (CHR 0x22)])"

definition bare_pattern :: "string \<Rightarrow> rx" where
  "bare_pattern kw = seq (lits kw @ [Plus Space, Grp (Plus WordC)])"

definition participant_keywords :: "string list" where
  "participant_keywords =
     [''participant'', ''actor'', ''entity'', ''boundary'', ''control'', ''database'',
      ''collections'', ''queue'']"

definition participant_patterns :: "rx list" where
  "participant_patterns =
     concat (map (\<lambda>kw. [quoted_pattern kw, bare_pattern kw]) participant_keywords)"

text \<open>
  The loop \<open>for pattern in participant_patterns: actors.extend(re.findall(...))\<close>,
  with the list \<open>actors\<close> as the state.
\<close>

fun extend_all :: "rx list \<Rightarrow> string \<Rightarrow> string list \<Rightarrow> string list" where
  "extend_all [] code acc = acc"
| "extend_all (p # ps) code acc = extend_all ps code (acc @ findall p True code)"

text \<open>
  \<open>sorted(set(actors))\<close>: the distinct elements in ascending order; Python compares
  strings code point by code point, a proper prefix first.
\<close>

definition extract_actors_from_plantuml :: "string \<Rightarrow> string list" where
  "extract_actors_from_plantuml code =
     sort (remdups (extend_all participant_patterns code []))"

text \<open>
  \<open>_extract_activities_from_plantuml\<close>: the comprehension
  \<open>[line.strip() for line in code.splitlines() if "->" in line and ":" in line]\<close>.
\<close>

fun activity_lines :: "string list \<Rightarrow> string list" where
  "activity_lines [] = []"
| "activity_lines (l # ls) =
     (if sublist ''->'' l \<and> sublist '':'' l then strip l # activity_lines ls
      else activity_lines ls)"

definition extract_activities_from_plantuml :: "string \<Rightarrow> string list" where
  "extract_activities_from_plantuml code = activity_lines (splitlines code)"

section \<open>Fenced code blocks\<close>

text \<open>
  Exceptions: those of the standard library that the code can raise itself, and
  \<open>Failure msg\<close> for an exception raised by a collaborator (the generation or
  refinement agent, the renderer, pandas, the file system), \<open>msg\<close> being \<open>str(e)\<close>.
  \<open>ReError msg\<close> is \<open>re.error\<close> with its message. \<open>AttributeError\<close> is the one that
  \<open>None.strip()\<close> raises and \<open>TypeError\<close> the one that \<open>re.search(pattern, None)\<close>
  raises; \<open>exn_message\<close> is \<open>str(e)\<close>, for these two in the wording of CPython 3.11.
\<close>

datatype exn = ReError string | AttributeError | TypeError | Failure string

fun exn_message :: "exn \<Rightarrow> string" where
  "exn_message (Failure msg) = msg"
| "exn_message (ReError msg) = msg"
| "exn_message AttributeError =
     [CHR 0x27] @ ''NoneType'' @ [CHR 0x27] @ '' object has no attribute '' @
     [CHR 0x27] @ ''strip'' @ [CHR 0x27]"
| "exn_message TypeError =
     ''expected string or bytes-like object, got '' @ [CHR 0x27] @ ''NoneType'' @ [CHR 0x27]"

text \<open>
  What a call does: it returns a value or raises. \<open>Uninterpreted\<close> marks the calls
  whose language hint is a regular expression outside the syntax interpreted here
  (see \<open>hinted_pattern\<close>); nothing is stated about them.
\<close>

datatype 'a outcome = Returned 'a | Raised exn | Uninterpreted

text \<open>
  The hinted pattern is the f-string \<open>rf"```{lang_hint}\s*([\s\S]*?)```"\<close>: the hint is
  pasted into the pattern unescaped and compiled with it.
  \<^item> A hint without any of the fourteen special characters of \<open>re\<close> is a run of
    literals.
  \<^item> In a hint whose only special characters are parentheses, every parenthesis opens
    or closes a group, and the rest of the pattern is balanced. When the hint's
    parentheses are not balanced, compiling the pattern raises \<open>re.error\<close>: at the
    first closing parenthesis that closes no group, \<open>unbalanced parenthesis\<close>;
    otherwise, at the last group left open, \<open>missing ), unterminated subpattern\<close>. The
    message ends with the position in the pattern (and would go on with line and
    column if the pattern had a line feed).
  \<^item> Every other hint is left uninterpreted.
\<close>

text \<open>The fence of a code block: three backticks.\<close>

definition fence :: string where
  "fence = [CHR 0x60, CHR 0x60, CHR 0x60]"

definition re_special :: "char \<Rightarrow> bool" where
  "re_special c \<longleftrightarrow>
     c \<in> set [CHR 0x5C, CHR ''.'', CHR ''^'', CHR ''$'', CHR ''*'', CHR ''+'', CHR ''?'',
              CHR ''{'', CHR ''}'', CHR ''['', CHR '']'', CHR ''|'', CHR ''('', CHR '')'']"

text \<open>A position as \<open>'%d' % pos\<close> prints it.\<close>

fun decimal :: "nat \<Rightarrow> string" where
  "decimal n =
     (if n < 10 then [char_of (48 + n)] else decimal (n div 10) @ [char_of (48 + n mod 10)])"

declare decimal.simps [simp del]

text \<open>
  \<open>paren_error pos opened hint\<close> reads the hint from position \<open>pos\<close> of the pattern, with
  the positions of the groups that are open, the innermost first.
\<close>

fun paren_error :: "nat \<Rightarrow> nat list \<Rightarrow> string \<Rightarrow> string option" where
  "paren_error pos opened [] =
     (case opened of
        [] \<Rightarrow> None
      | p # ps \<Rightarrow> Some (''missing ), unterminated subpattern at position '' @ decimal p))"
| "paren_error pos opened (c # cs) =
     (if c = CHR ''('' then paren_error (Suc pos) (pos # opened) cs
      else if c = CHR '')'' then
        (case opened of
           [] \<Rightarrow> Some (''unbalanced parenthesis at position '' @ decimal pos)
         | p # ps \<Rightarrow> paren_error (Suc pos) ps cs)
      else paren_error (Suc pos) opened cs)"

datatype compiled = Compiled rx | CompileError string | NotInterpreted

definition hinted_pattern :: "string \<Rightarrow> compiled" where
  "hinted_pattern lang_hint =
     (if list_all (\<lambda>c. \<not> re_special c) lang_hint then
        Compiled (seq (lits fence @ lits lang_hint @ [Star Space, Grp (LazyStar AnyC)] @
                       lits fence))
      else if list_all (\<lambda>c. c \<notin> set [CHR 0x5C, CHR ''.'', CHR ''^'', CHR ''$'', CHR ''*'',
                                      CHR ''+'', CHR ''?'', CHR ''{'', CHR ''}'', CHR ''['',
                                      CHR '']'', CHR ''|'', CHR 0x0A]) lang_hint then
        (case paren_error (length fence) [] lang_hint of
           Some msg \<Rightarrow> CompileError msg
         | None \<Rightarrow> NotInterpreted)
      else NotInterpreted)"

text \<open>The fallback pattern \<open>r"```(?:\w+)?\s*([\s\S]*?)```"\<close>.\<close>

definition any_fence_pattern :: rx where
  "any_fence_pattern =
     seq (lits fence @ [Opt (Plus WordC), Star Space, Grp (LazyStar AnyC)] @ lits fence)"

text \<open>\<open>m.group(1).strip()\<close>: a group that took no part in the match is \<open>None\<close>.\<close>

definition group1_strip :: "mres \<Rightarrow> string outcome" where
  "group1_strip m = (case fst m of Some g \<Rightarrow> Returned (strip g) | None \<Rightarrow> Raised AttributeError)"

definition any_fenced_block :: "string \<Rightarrow> string outcome" where
  "any_fenced_block text =
     (case rsearch any_fence_pattern False text of
        Some m \<Rightarrow> group1_strip m
      | None \<Rightarrow> Returned (strip text))"

text \<open>\<open>_extract_code_block\<close>; \<open>if lang_hint:\<close> is false for \<open>None\<close> and for the empty string.\<close>

definition extract_code_block :: "string \<Rightarrow> string option \<Rightarrow> string outcome" where
  "extract_code_block text lang_hint =
     (case lang_hint of
        None \<Rightarrow> any_fenced_block text
      | Some h \<Rightarrow>
          if h = [] then any_fenced_block text
          else (case hinted_pattern h of
                  CompileError msg \<Rightarrow> Raised (ReError msg)
                | NotInterpreted \<Rightarrow> Uninterpreted
                | Compiled r \<Rightarrow>
                    (case rsearch r True text of
                       Some m \<Rightarrow> group1_strip m
                     | None \<Rightarrow> any_fenced_block text)))"

section \<open>The orchestrators\<close>

text \<open>The result dictionary; a key that the dictionary lacks, or maps to \<open>None\<close>, is \<open>None\<close>.\<close>

record gen_result =
  success :: bool
  plantuml_code :: "string option"
  plantuml_image :: "string option"
  actors :: "string list"
  activities :: "string list"
  error :: "string option"

text \<open>
  The collaborators, each returning \<open>Inl e\<close> when it raises an exception of class
  \<open>Exception\<close>:
  \<^item> \<open>write_temp_csv csv_path\<close>: lines 31 to 34, the temporary file, \<open>pd.read_csv\<close> and
    \<open>df.to_csv\<close>; it returns the temporary file's path;
  \<^item> \<open>generation_run tmp_csv_path output_dir\<close>: lines 37 to 81, the tools, the agent with
    its fixed instructions and \<open>agent.run\<close> on the fixed prompt; it returns the
    response's content;
  \<^item> \<open>refinement_run prompt\<close>: lines 147 to 163, the refiner agent and \<open>agent.run\<close>;
  \<^item> \<open>render_plantuml_from_text code output_dir filename_base\<close> of
    \<open>plantuml_service.py\<close>; it returns the image's path;
  \<^item> \<open>unlink_temp tmp_csv_path\<close>: the \<open>finally\<close> block, \<open>os.path.exists\<close> and \<open>os.unlink\<close>.
  The content of a response is a string or \<open>None\<close>.
\<close>

datatype content = Text string | NoContent

record collaborators =
  write_temp_csv :: "string \<Rightarrow> exn + string"
  generation_run :: "string \<Rightarrow> string \<Rightarrow> exn + content"
  refinement_run :: "string \<Rightarrow> exn + content"
  render_plantuml_from_text :: "string \<Rightarrow> string \<Rightarrow> string \<Rightarrow> exn + string"
  unlink_temp :: "string \<Rightarrow> exn + unit"

text \<open>
  \<open>Path(p).name\<close> on a POSIX path: the last component, empty and \<open>.\<close> components
  apart; the empty string when there is none.
\<close>

fun split_slash :: "string \<Rightarrow> string \<Rightarrow> string list" where
  "split_slash cur [] = [cur]"
| "split_slash cur (c # cs) =
     (if c = CHR ''/'' then cur # split_slash [] cs else split_slash (cur @ [c]) cs)"

definition path_name :: "string \<Rightarrow> string" where
  "path_name p =
     (case filter (\<lambda>c. c \<noteq> [] \<and> c \<noteq> ''.'') (split_slash [] p) of
        [] \<Rightarrow> []
      | c # cs \<Rightarrow> last (c # cs))"

text \<open>\<open>re.search\<close> on a content that is \<open>None\<close> raises \<open>TypeError\<close>.\<close>

definition extract_from_content :: "content \<Rightarrow> string outcome" where
  "extract_from_content c =
     (case c of
        NoContent \<Rightarrow> Raised TypeError
      | Text raw \<Rightarrow> extract_code_block raw (Some ''plantuml''))"

definition success_result :: "string \<Rightarrow> string \<Rightarrow> gen_result" where
  "success_result code img_path =
     \<lparr>success = True,
      plantuml_code = Some code,
      plantuml_image = Some (''/static'' @ ''/'' @ path_name img_path),
      actors = extract_actors_from_plantuml code,
      activities = extract_activities_from_plantuml code,
      error = None\<rparr>"

definition failure_result :: "exn \<Rightarrow> gen_result" where
  "failure_result e =
     \<lparr>success = False,
      plantuml_code = None,
      plantuml_image = None,
      actors = [],
      activities = [],
      error = Some (exn_message e)\<rparr>"

text \<open>The tail both orchestrators share: extract, render, analyze, assemble.\<close>

definition extract_render_analyze ::
  "collaborators \<Rightarrow> content \<Rightarrow> string \<Rightarrow> gen_result outcome" where
  "extract_render_analyze env c output_dir =
     (case extract_from_content c of
        Raised e \<Rightarrow> Raised e
      | Uninterpreted \<Rightarrow> Uninterpreted
      | Returned code \<Rightarrow>
          (case render_plantuml_from_text env code output_dir ''e2e_test_diagram'' of
             Inl e \<Rightarrow> Raised e
           | Inr img_path \<Rightarrow> Returned (success_result code img_path)))"

text \<open>\<open>except Exception as e\<close>: an exception raised in the \<open>try\<close> block becomes the failure result.\<close>

definition catch_all :: "gen_result outcome \<Rightarrow> gen_result outcome" where
  "catch_all body =
     (case body of
        Raised e \<Rightarrow> Returned (failure_result e)
      | Returned r \<Rightarrow> Returned r
      | Uninterpreted \<Rightarrow> Uninterpreted)"

text \<open>The \<open>try\<close> block of \<open>process_csv_and_generate\<close>, lines 37 to 100.\<close>

definition generate_body :: "collaborators \<Rightarrow> string \<Rightarrow> string \<Rightarrow> gen_result outcome" where
  "generate_body env tmp_csv_path output_dir =
     (case generation_run env tmp_csv_path output_dir of
        Inl e \<Rightarrow> Raised e
      | Inr c \<Rightarrow> extract_render_analyze env c output_dir)"

text \<open>
  \<open>process_csv_and_generate\<close>: the copy of the CSV is made before the \<open>try\<close>
  statement; the \<open>finally\<close> block runs after the result is ready, and an exception that
  it raises replaces the result.
\<close>

definition process_csv_and_generate ::
  "collaborators \<Rightarrow> string \<Rightarrow> string \<Rightarrow> gen_result outcome" where
  "process_csv_and_generate env csv_path output_dir =
     (case write_temp_csv env csv_path of
        Inl e \<Rightarrow> Raised e
      | Inr tmp_csv_path \<Rightarrow>
          (let r = catch_all (generate_body env tmp_csv_path output_dir)
           in (case unlink_temp env tmp_csv_path of
                 Inl e \<Rightarrow> Raised e
               | Inr u \<Rightarrow> r)))"

definition refine_prompt :: "string \<Rightarrow> string \<Rightarrow> string" where
  "refine_prompt code message =
     ''Here is the current PlantUML code:'' @ [CHR 0x0A] @ ''```plantuml'' @ [CHR 0x0A] @
     code @ [CHR 0x0A] @ ''```'' @ [CHR 0x0A, CHR 0x0A] @
     ''User request: '' @ message @ [CHR 0x0A, CHR 0x0A] @
     ''Please return the updated PlantUML code.''"

text \<open>The \<open>try\<close> block of \<open>refine_plantuml_code\<close>, lines 147 to 175.\<close>

definition refine_body ::
  "collaborators \<Rightarrow> string \<Rightarrow> string \<Rightarrow> string \<Rightarrow> gen_result outcome" where
  "refine_body env code message output_dir =
     (case refinement_run env (refine_prompt code message) of
        Inl e \<Rightarrow> Raised e
      | Inr c \<Rightarrow> extract_render_analyze env c output_dir)"

definition refine_plantuml_code ::
  "collaborators \<Rightarrow> string \<Rightarrow> string \<Rightarrow> string \<Rightarrow> gen_result outcome" where
  "refine_plantuml_code env code message output_dir =
     catch_all (refine_body env code message output_dir)"

section \<open>Notions of the specification\<close>

text \<open>
  The invariant of a result record: it is a success exactly when the diagram source
  and the image reference are present and the error is absent, a failure exactly when
  they are absent and the error is present, and a failure lists no actor and no
  activity.
\<close>

definition result_invariant :: "gen_result \<Rightarrow> bool" where
  "result_invariant r \<longleftrightarrow>
     (success r \<longleftrightarrow> plantuml_code r \<noteq> None \<and> plantuml_image r \<noteq> None \<and> error r = None) \<and>
     (\<not> success r \<longleftrightarrow> plantuml_code r = None \<and> plantuml_image r = None \<and> error r \<noteq> None) \<and>
     (\<not> success r \<longrightarrow> actors r = [] \<and> activities r = [])"

text \<open>
  A fenced block as the specification has it: the opening fence with the label that
  names the block's kind, up to the end of that line; the inner content; the closing
  fence, which is the first fence after the opening line.
\<close>

definition is_fenced_block :: "string \<Rightarrow> string \<Rightarrow> string \<Rightarrow> bool" where
  "is_fenced_block label inner block \<longleftrightarrow>
     block = fence @ label @ [CHR 0x0A] @ inner @ fence \<and>
     \<not> list_ex is_linebreak label \<and> CHR 0x60 \<notin> set label \<and> \<not> sublist fence (inner @ butlast fence)"

text \<open>
  What the two patterns of the code look for. The fallback pattern can match only
  where a fence is followed, later, by a second fence (\<open>has_fenced_block\<close>); the
  hinted pattern only where a fence is followed at once by the characters of the
  hint, in any letter case, and later by a second fence (\<open>has_fence_starting_with\<close>),
  whether or not the label of the fence goes on after these characters.
\<close>

definition has_fenced_block :: "string \<Rightarrow> bool" where
  "has_fenced_block text \<longleftrightarrow>
     list_ex (\<lambda>u. prefix fence u \<and> sublist fence (drop (length fence) u)) (suffixes text)"

definition has_fence_starting_with :: "string \<Rightarrow> string \<Rightarrow> bool" where
  "has_fence_starting_with kind text \<longleftrightarrow>
     list_ex (\<lambda>u. prefix (fence @ map ci_lower kind) (map ci_lower u) \<and>
                  sublist fence (drop (length fence + length kind) u)) (suffixes text)"

text \<open>
  A word occurs within \<open>pre\<close> where, in a text that has \<open>pre\<close> followed by the word, an
  occurrence of the word starts inside \<open>pre\<close>. A kind's name is plain where none of its
  characters is special in a regular expression.
\<close>

definition occurs_within :: "string \<Rightarrow> string \<Rightarrow> bool" where
  "occurs_within w pre \<longleftrightarrow> sublist w (pre @ butlast w)"

definition plain_name :: "string \<Rightarrow> bool" where
  "plain_name kind \<longleftrightarrow> list_all (\<lambda>c. \<not> re_special c) kind"

text \<open>Whether a text starts with a given string, up to letter case if \<open>ic\<close> (used in the proofs).\<close>

definition starts_with :: "bool \<Rightarrow> string \<Rightarrow> string \<Rightarrow> bool" where
  "starts_with ic h s = (if ic then prefix (map ci_lower h) (map ci_lower s) else prefix h s)"

text \<open>Whether a pattern's group 1 takes part in every match (used in the proofs).\<close>

primrec captures :: "rx \<Rightarrow> bool" where
  "captures Eps = False"
| "captures (Lit a) = False"
| "captures (Star cs) = False"
| "captures (Plus cs) = False"
| "captures (LazyStar cs) = False"
| "captures (Opt r) = False"
| "captures (Grp r) = True"
| "captures (Cat a b) = (captures a \<or> captures b)"

section \<open>Scenarios\<close>

text \<open>
  Scenario C of the specification: the refinement agent answers with the fenced block
  of the two message lines, and the renderer succeeds.
\<close>

definition scenario_c_response :: string where
  "scenario_c_response =
     ''```plantuml'' @ [CHR 0x0A] @ ''A -> B: ping'' @ [CHR 0x0A] @ ''B -> A: pong'' @
     [CHR 0x0A] @ ''```''"

definition scenario_c_env :: collaborators where
  "scenario_c_env =
     \<lparr>write_temp_csv = (\<lambda>p. Inr ''/tmp/tmpcases.csv''),
      generation_run = (\<lambda>t d. Inr (Text scenario_c_response)),
      refinement_run = (\<lambda>p. Inr (Text scenario_c_response)),
      render_plantuml_from_text = (\<lambda>c d b. Inr (d @ ''/'' @ b @ ''.png'')),
      unlink_temp = (\<lambda>t. Inr ())\<rparr>"

text \<open>
  Scenario B: the agent answers in prose, without a fence, and the renderer rejects
  the text.
\<close>

definition scenario_b_env :: collaborators where
  "scenario_b_env =
     \<lparr>write_temp_csv = (\<lambda>p. Inr ''/tmp/tmpcases.csv''),
      generation_run = (\<lambda>t d. Inr (Text ''I could not read the test cases.'')),
      refinement_run = (\<lambda>p. Inr (Text ''I could not read the diagram.'')),
      render_plantuml_from_text = (\<lambda>c d b. Inl (Failure ''PlantUML rendering failed'')),
      unlink_temp = (\<lambda>t. Inr ())\<rparr>"

text \<open>An upload that pandas cannot read: \<open>pd.read_csv\<close> raises.\<close>

definition unreadable_csv_env :: collaborators where
  "unreadable_csv_env =
     \<lparr>write_temp_csv = (\<lambda>p. Inl (Failure ''No columns to parse from file'')),
      generation_run = (\<lambda>t d. Inr (Text scenario_c_response)),
      refinement_run = (\<lambda>p. Inr (Text scenario_c_response)),
      render_plantuml_from_text = (\<lambda>c d b. Inr (d @ ''/'' @ b @ ''.png'')),
      unlink_temp = (\<lambda>t. Inr ())\<rparr>"

section \<open>The matcher: what a match implies\<close>

lemma rmatch_seq_Nil [simp]: "rmatch (seq []) ic s c k = k s c"
  by (simp add: seq_def)

lemma rmatch_seq_Cons [simp]:
  "rmatch (seq (a # rs)) ic s c k = rmatch a ic s c (\<lambda>s' c'. rmatch (seq rs) ic s' c' k)"
  by (simp add: seq_def)

lemma star_greedy_SomeD: "star_greedy p s k = Some m \<Longrightarrow> \<exists>s'. k s' = Some m"
  by (induction s) (auto split: if_splits option.splits)

lemma star_lazy_SomeD: "star_lazy p s k = Some m \<Longrightarrow> \<exists>s'. k s' = Some m"
  by (induction s) (auto split: if_splits option.splits)

lemma rmatch_SomeD:
  "rmatch r ic s c k = Some m \<Longrightarrow> \<exists>s' c'. k s' c' = Some m \<and> (c \<noteq> None \<longrightarrow> c' \<noteq> None)"
proof (induction r arbitrary: s c k)
  case (Star cs)
  then show ?case using star_greedy_SomeD[of "in_cset cs" s "\<lambda>s'. k s' c" m] by auto
next
  case (Plus cs)
  then show ?case
    by (auto split: list.splits if_splits dest!: star_greedy_SomeD)
next
  case (LazyStar cs)
  then show ?case using star_lazy_SomeD[of "in_cset cs" s "\<lambda>s'. k s' c" m] by auto
next
  case (Opt r)
  then show ?case by (auto split: option.splits)
next
  case (Grp r)
  from Grp.prems have "rmatch r ic s c (\<lambda>s' c'. k s' (Some (take (length s - length s') s))) = Some m"
    by simp
  from Grp.IH[OF this] show ?case by blast
next
  case (Cat a b)
  from Cat.prems have "rmatch a ic s c (\<lambda>s' c'. rmatch b ic s' c' k) = Some m" by simp
  from Cat.IH(1)[OF this] obtain s' c' where
    1: "rmatch b ic s' c' k = Some m" and 2: "c \<noteq> None \<longrightarrow> c' \<noteq> None" by blast
  from Cat.IH(2)[OF 1] 2 show ?case by blast
qed (auto split: list.splits if_splits)

lemma rmatch_captures:
  "captures r \<Longrightarrow> rmatch r ic s c k = Some m \<Longrightarrow> \<exists>s' c'. k s' c' = Some m \<and> c' \<noteq> None"
proof (induction r arbitrary: s c k)
  case (Grp r)
  from Grp.prems have "rmatch r ic s c (\<lambda>s' c'. k s' (Some (take (length s - length s') s))) = Some m"
    by simp
  from rmatch_SomeD[OF this] show ?case by blast
next
  case (Cat a b)
  from Cat.prems have m: "rmatch a ic s c (\<lambda>s' c'. rmatch b ic s' c' k) = Some m" by simp
  show ?case
  proof (cases "captures a")
    case True
    from Cat.IH(1)[OF True m] obtain s' c' where
      1: "rmatch b ic s' c' k = Some m" and 2: "c' \<noteq> None" by blast
    from rmatch_SomeD[OF 1] 2 show ?thesis by blast
  next
    case False
    with Cat.prems have cb: "captures b" by simp
    from rmatch_SomeD[OF m] obtain s' c' where 1: "rmatch b ic s' c' k = Some m" by blast
    from Cat.IH(2)[OF cb 1] show ?thesis .
  qed
qed simp_all

lemma rsearch_SomeD:
  "rsearch r ic s = Some m \<Longrightarrow> \<exists>t. suffix t s \<and> rmatch r ic t None (\<lambda>s' c. Some (c, s')) = Some m"
proof (induction s)
  case Nil
  then show ?case by auto
next
  case (Cons x xs)
  show ?case
  proof (cases "rmatch r ic (x # xs) None (\<lambda>s' c. Some (c, s'))")
    case None
    with Cons.prems have "rsearch r ic xs = Some m" by simp
    from Cons.IH[OF this] show ?thesis by (auto intro: suffix_ConsI)
  next
    case (Some a)
    with Cons.prems show ?thesis by auto
  qed
qed

lemma rsearch_captures:
  assumes "captures r" "rsearch r ic s = Some m"
  shows "\<exists>g. fst m = Some g"
proof -
  from rsearch_SomeD[OF assms(2)] obtain t where
    "rmatch r ic t None (\<lambda>s' c. Some (c, s')) = Some m" by blast
  from rmatch_captures[OF assms(1) this] show ?thesis by auto
qed

lemma captures_seq_Cons [simp]: "captures (seq (a # rs)) = (captures a \<or> captures (seq rs))"
  by (simp add: seq_def)

lemma captures_seq_append [simp]: "captures (seq (xs @ ys)) = (captures (seq xs) \<or> captures (seq ys))"
  by (induction xs) (simp_all add: seq_def)

lemma captures_any: "captures any_fence_pattern"
  by (simp add: any_fence_pattern_def lits_def)

lemma any_fenced_block_returns: "\<exists>r. any_fenced_block text = Returned r"
  using rsearch_captures[OF captures_any]
  by (fastforce simp: any_fenced_block_def group1_strip_def split: option.splits)

lemma extract_plain_returns:
  assumes "list_all (\<lambda>c. \<not> re_special c) h"
  shows "\<exists>r. extract_code_block text (Some h) = Returned r"
proof -
  let ?r = "seq (lits fence @ lits h @ [Star Space, Grp (LazyStar AnyC)] @ lits fence)"
  have c: "captures ?r" by simp
  have hp: "hinted_pattern h = Compiled ?r" using assms by (simp add: hinted_pattern_def)
  show ?thesis
  proof (cases "h = []")
    case True
    then show ?thesis using any_fenced_block_returns by (simp add: extract_code_block_def)
  next
    case False
    show ?thesis
    proof (cases "rsearch ?r True text")
      case None
      then show ?thesis using False hp any_fenced_block_returns
        by (simp add: extract_code_block_def)
    next
      case (Some m)
      from rsearch_captures[OF c Some] obtain g where "fst m = Some g" by blast
      then show ?thesis using False hp Some
        by (simp add: extract_code_block_def group1_strip_def)
    qed
  qed
qed

lemma plantuml_plain: "list_all (\<lambda>c. \<not> re_special c) ''plantuml''"
  by (simp add: re_special_def)


lemma extract_from_content_cases:
  "(\<exists>code. extract_from_content c = Returned code) \<or> extract_from_content c = Raised TypeError"
  using extract_plain_returns[OF plantuml_plain]
  by (cases c) (auto simp: extract_from_content_def)

lemma extract_render_analyze_cases:
  "(\<exists>code img. extract_render_analyze env c d = Returned (success_result code img)) \<or>
   (\<exists>e. extract_render_analyze env c d = Raised e)"
proof (cases "extract_from_content c")
  case (Returned code)
  then show ?thesis
    by (cases "render_plantuml_from_text env code d ''e2e_test_diagram''")
       (auto simp: extract_render_analyze_def)
next
  case (Raised e)
  then show ?thesis by (simp add: extract_render_analyze_def)
next
  case Uninterpreted
  then show ?thesis using extract_from_content_cases[of c] by simp
qed

lemma catch_all_cases:
  "body = Returned r \<Longrightarrow> catch_all body = Returned r"
  "body = Raised e \<Longrightarrow> catch_all body = Returned (failure_result e)"
  by (simp_all add: catch_all_def)

lemma generate_body_cases:
  "(\<exists>code img. generate_body env t d = Returned (success_result code img)) \<or>
   (\<exists>e. generate_body env t d = Raised e)"
  using extract_render_analyze_cases
  by (auto simp: generate_body_def split: sum.splits)

lemma refine_body_cases:
  "(\<exists>code img. refine_body env c m d = Returned (success_result code img)) \<or>
   (\<exists>e. refine_body env c m d = Raised e)"
  using extract_render_analyze_cases
  by (auto simp: refine_body_def split: sum.splits)

lemma result_invariant_success: "result_invariant (success_result code img)"
  by (simp add: result_invariant_def success_result_def)

lemma result_invariant_failure: "result_invariant (failure_result e)"
  by (simp add: result_invariant_def failure_result_def)

lemma catch_all_invariant:
  assumes "(\<exists>code img. body = Returned (success_result code img)) \<or> (\<exists>e. body = Raised e)"
  shows "\<exists>r. catch_all body = Returned r \<and> result_invariant r"
  using assms result_invariant_success result_invariant_failure
  by (auto simp: catch_all_def)


lemma ci_lower_backtick [simp]: "ci_lower c = CHR 0x60 \<longleftrightarrow> c = CHR 0x60"
proof
  assume a: "ci_lower c = CHR 0x60"
  show "c = CHR 0x60"
  proof (rule ccontr)
    assume n: "c \<noteq> CHR 0x60"
    let ?n = "of_char c :: nat"
    from a n have up: "(65 \<le> ?n \<and> ?n \<le> 90) \<or> (192 \<le> ?n \<and> ?n \<le> 222 \<and> ?n \<noteq> 215)"
      and eq: "char_of (?n + 32) = CHR 0x60"
      by (auto simp: ci_lower_def Let_def split: if_splits)
    from eq have "(of_char (char_of (?n + 32) :: char) :: nat) = of_char (CHR 0x60)" by simp
    then have "(?n + 32) mod 256 = 96" by simp
    with up show False by auto
  qed
next
  assume "c = CHR 0x60"
  then show "ci_lower c = CHR 0x60" by (simp add: ci_lower_def)
qed

lemma ci_lower_backtick' [simp]: "CHR 0x60 = ci_lower c \<longleftrightarrow> c = CHR 0x60"
  using ci_lower_backtick[of c] by (metis)

lemma not_space_backtick [simp]: "\<not> is_space (CHR 0x60)"
  by (simp add: is_space_def)

lemma not_word_backtick [simp]: "\<not> is_word (CHR 0x60)"
  by (simp add: is_word_def)

lemma starts_with_Nil [simp]: "starts_with ic [] s"
  by (simp add: starts_with_def)

lemma starts_with_Cons_Nil [simp]: "\<not> starts_with ic (a # h) []"
  by (simp add: starts_with_def)

lemma starts_with_Cons_Cons [simp]:
  "starts_with ic (a # h) (x # xs) \<longleftrightarrow> chr_eq ic a x \<and> starts_with ic h xs"
  by (simp add: starts_with_def chr_eq_def)

lemma ci_lower_of_backtick [simp]: "ci_lower (CHR 0x60) = CHR 0x60"
  by (simp add: ci_lower_def)

lemma chr_eq_backtick [simp]: "chr_eq ic (CHR 0x60) x \<longleftrightarrow> x = CHR 0x60"
  by (auto simp: chr_eq_def)

lemma starts_with_exact:
  "(\<And>a x. a \<in> set h \<Longrightarrow> chr_eq ic a x \<longleftrightarrow> a = x) \<Longrightarrow> starts_with ic h s \<longleftrightarrow> prefix h s"
proof (induction h arbitrary: s)
  case Nil
  then show ?case by simp
next
  case (Cons a h)
  then show ?case by (cases s) auto
qed

lemma starts_with_fence [simp]: "starts_with ic fence s \<longleftrightarrow> prefix fence s"
  by (rule starts_with_exact) (auto simp: fence_def)

lemma fence_facts [simp]:
  "fence \<noteq> []" "length fence = 3" "\<not> is_space (hd fence)" "\<not> is_word (hd fence)"
  "map ci_lower fence = fence" "butlast fence = [CHR 0x60, CHR 0x60]"
  by (simp_all add: fence_def)

lemma in_cset_Space [simp]: "in_cset Space = is_space"
  by (rule ext) simp

lemma in_cset_WordC [simp]: "in_cset WordC = is_word"
  by (rule ext) simp

lemma in_cset_AnyC [simp]: "in_cset AnyC = (\<lambda>c. True)"
  by (rule ext) simp

lemma in_cset_NotQuote [simp]: "in_cset NotQuote = (\<lambda>c. c \<noteq> CHR 0x22)"
  by (rule ext) simp

lemma rmatch_lits:
  "rmatch (seq (lits h @ rs)) ic s c k =
     (if starts_with ic h s then rmatch (seq rs) ic (drop (length h) s) c k else None)"
proof (induction h arbitrary: s)
  case Nil
  then show ?case by (simp add: lits_def)
next
  case (Cons a h)
  then show ?case by (cases s) (simp_all add: lits_def)
qed

lemma rmatch_lits_end:
  "rmatch (seq (lits h)) ic s c k = (if starts_with ic h s then k (drop (length h) s) c else None)"
  using rmatch_lits[of h "[]" ic s c k] by simp


section \<open>Repetitions\<close>

lemma star_greedy_hit: "k (dropWhile p s) = Some m \<Longrightarrow> star_greedy p s k = Some m"
  by (induction s) auto

lemma star_greedy_suffixD:
  "star_greedy p s k = Some m \<Longrightarrow> \<exists>t. suffix t s \<and> k t = Some m"
proof (induction s)
  case Nil
  then show ?case by auto
next
  case (Cons x xs)
  show ?case
  proof (cases "p x \<and> star_greedy p xs k \<noteq> None")
    case True
    with Cons.prems have "star_greedy p xs k = Some m" by (auto split: option.splits)
    from Cons.IH[OF this] show ?thesis by (auto intro: suffix_ConsI)
  next
    case False
    with Cons.prems have "k (x # xs) = Some m" by (auto split: option.splits if_splits)
    then show ?thesis by auto
  qed
qed

lemma star_lazy_suffixD:
  "star_lazy p s k = Some m \<Longrightarrow> \<exists>t. suffix t s \<and> k t = Some m"
proof (induction s)
  case Nil
  then show ?case by auto
next
  case (Cons x xs)
  show ?case
  proof (cases "k (x # xs)")
    case None
    with Cons.prems have "star_lazy p xs k = Some m" by (auto split: if_splits)
    from Cons.IH[OF this] show ?thesis by (auto intro: suffix_ConsI)
  next
    case (Some a)
    with Cons.prems show ?thesis by auto
  qed
qed


lemma prefix_shorter_butlast:
  "prefix us f \<Longrightarrow> length us < length f \<Longrightarrow> prefix us (butlast f)"
  by (auto simp: prefix_def butlast_append)

lemma prefix_inside:
  assumes "prefix f (t @ f @ post)" and "t \<noteq> []"
  shows "prefix f (t @ butlast f)"
proof (cases "prefix f t")
  case True
  then show ?thesis by (auto simp: prefix_def)
next
  case False
  with assms(1) obtain us where us: "f = t @ us" "prefix us (f @ post)"
    unfolding prefix_append by blast
  from us(1) assms(2) have l: "length us < length f"
    by (cases t) simp_all
  from us(2) have "prefix us f \<or> (\<exists>vs. us = f @ vs)"
    unfolding prefix_append by blast
  with l have "prefix us f" by auto
  with l have "prefix us (butlast f)" using prefix_shorter_butlast by blast
  then have "prefix (t @ us) (t @ butlast f)" by simp
  with us(1) show ?thesis by simp
qed


lemma first_occurrence:
  assumes "\<not> sublist f (pre @ butlast f)" and "i < length pre"
  shows "\<not> prefix f (drop i (pre @ f @ post))"
proof
  assume p: "prefix f (drop i (pre @ f @ post))"
  from assms(2) have d: "drop i (pre @ f @ post) = drop i pre @ f @ post" by simp
  from assms(2) have ne: "drop i pre \<noteq> []" by simp
  from p d have "prefix f (drop i pre @ f @ post)" by simp
  from prefix_inside[OF this ne] have "prefix f (drop i pre @ butlast f)" .
  then obtain z where z: "drop i pre @ butlast f = f @ z" by (auto simp: prefix_def)
  have "pre @ butlast f = take i pre @ (drop i pre @ butlast f)"
    by (simp only: append_assoc[symmetric] append_take_drop_id)
  with z have "pre @ butlast f = take i pre @ f @ z" by simp
  then have "sublist f (pre @ butlast f)" unfolding sublist_def by blast
  with assms(1) show False by simp
qed

lemma star_lazy_skip:
  "(\<And>i. i < length body \<Longrightarrow> k (drop i (body @ rest)) = None) \<Longrightarrow>
   star_lazy (\<lambda>c. True) (body @ rest) k = star_lazy (\<lambda>c. True) rest k"
proof (induction body)
  case Nil
  then show ?case by simp
next
  case (Cons b bs)
  from Cons.prems[of 0] have 0: "k (b # bs @ rest) = None" by simp
  have "\<And>i. i < length bs \<Longrightarrow> k (drop i (bs @ rest)) = None"
  proof -
    fix i assume "i < length bs"
    then have "Suc i < length (b # bs)" by simp
    from Cons.prems[OF this] show "k (drop i (bs @ rest)) = None" by simp
  qed
  from Cons.IH[OF this] 0 show ?case by simp
qed

lemma star_lazy_here: "k s = Some m \<Longrightarrow> star_lazy p s k = Some m"
  by (cases s) auto

lemma star_lazy_first:
  assumes "\<not> sublist f (body @ butlast f)"
  shows "star_lazy (\<lambda>c. True) (body @ f @ post)
           (\<lambda>s2. if prefix f s2 then Some (F s2) else None) = Some (F (f @ post))"
proof -
  let ?k = "\<lambda>s2. if prefix f s2 then Some (F s2) else None"
  have "\<And>i. i < length body \<Longrightarrow> ?k (drop i (body @ f @ post)) = None"
    using first_occurrence[OF assms] by (simp only: if_False)
  then have "star_lazy (\<lambda>c. True) (body @ f @ post) ?k = star_lazy (\<lambda>c. True) (f @ post) ?k"
    by (rule star_lazy_skip)
  also have "\<dots> = Some (F (f @ post))" by (rule star_lazy_here) simp
  finally show ?thesis .
qed

lemma star_lazy_sound:
  assumes "star_lazy p s (\<lambda>s2. if prefix f s2 then Some (F s2) else None) = Some m"
  shows "sublist f s"
proof -
  from star_lazy_suffixD[OF assms] obtain t where "suffix t s" "prefix f t"
    by (auto split: if_splits)
  then obtain a b where "s = a @ t" "t = f @ b" by (auto simp: suffix_def prefix_def)
  then have "s = a @ f @ b" by simp
  then show ?thesis unfolding sublist_def by blast
qed


section \<open>Searching\<close>

lemma rsearch_hit:
  "rmatch r ic s None (\<lambda>s' c. Some (c, s')) = Some m \<Longrightarrow> rsearch r ic s = Some m"
  by (cases s) auto

lemma rsearch_skip:
  "(\<And>i. i < length pre \<Longrightarrow> rmatch r ic (drop i (pre @ s)) None (\<lambda>s' c. Some (c, s')) = None) \<Longrightarrow>
   rsearch r ic (pre @ s) = rsearch r ic s"
proof (induction pre)
  case Nil
  then show ?case by simp
next
  case (Cons p ps)
  from Cons.prems[of 0] have 0: "rmatch r ic (p # ps @ s) None (\<lambda>s' c. Some (c, s')) = None"
    by simp
  have "\<And>i. i < length ps \<Longrightarrow> rmatch r ic (drop i (ps @ s)) None (\<lambda>s' c. Some (c, s')) = None"
  proof -
    fix i assume "i < length ps"
    then have "Suc i < length (p # ps)" by simp
    from Cons.prems[OF this]
    show "rmatch r ic (drop i (ps @ s)) None (\<lambda>s' c. Some (c, s')) = None" by simp
  qed
  from Cons.IH[OF this] 0 show ?case by simp
qed

lemma rsearch_none:
  "(\<And>t. suffix t s \<Longrightarrow> rmatch r ic t None (\<lambda>s' c. Some (c, s')) = None) \<Longrightarrow>
   rsearch r ic s = None"
proof (induction s)
  case Nil
  then show ?case by simp
next
  case (Cons x xs)
  have "\<And>t. suffix t xs \<Longrightarrow> rmatch r ic t None (\<lambda>s' c. Some (c, s')) = None"
    using Cons.prems by (simp add: suffix_ConsI)
  from Cons.IH[OF this] Cons.prems[of "x # xs"] show ?case by simp
qed

section \<open>The end of a fenced block\<close>

text \<open>The part both fence patterns share: optional whitespace, the group, the closing fence.\<close>

lemma block_end_unfold:
  "rmatch (seq ([Star Space, Grp (LazyStar AnyC)] @ lits fence)) ic s c (\<lambda>s' c. Some (c, s')) =
     star_greedy is_space s
       (\<lambda>s1. star_lazy (\<lambda>c. True) s1
          (\<lambda>s2. if prefix fence s2
                then Some (Some (take (length s1 - length s2) s1), drop (length fence) s2)
                else None))"
  by (simp add: rmatch_lits_end del: fence_facts(2))

lemma dropWhile_append_stop:
  "ys \<noteq> [] \<Longrightarrow> \<not> P (hd ys) \<Longrightarrow> dropWhile P (xs @ ys) = dropWhile P xs @ ys"
  by (induction xs) (auto simp: neq_Nil_conv)

lemma block_end_hit:
  assumes "\<not> sublist fence (inner @ butlast fence)"
  shows "rmatch (seq ([Star Space, Grp (LazyStar AnyC)] @ lits fence)) ic
           (inner @ fence @ post) c (\<lambda>s' c. Some (c, s')) =
         Some (Some (dropWhile is_space inner), post)"
proof -
  let ?inner' = "dropWhile is_space inner"
  let ?k = "\<lambda>s1. star_lazy (\<lambda>c. True) s1
          (\<lambda>s2. if prefix fence s2
                then Some (Some (take (length s1 - length s2) s1), drop (length fence) s2)
                else None)"
  have d: "dropWhile is_space (inner @ fence @ post) = ?inner' @ fence @ post"
    by (rule dropWhile_append_stop) simp_all
  have "sublist (?inner' @ butlast fence) (inner @ butlast fence)"
  proof -
    have "inner @ butlast fence = takeWhile is_space inner @ (?inner' @ butlast fence) @ []"
      by simp
    then show ?thesis unfolding sublist_def by blast
  qed
  with assms have ns: "\<not> sublist fence (?inner' @ butlast fence)"
    using sublist_order.order_trans by blast
  have "?k (?inner' @ fence @ post) =
        Some (Some (take (length (?inner' @ fence @ post) - length (fence @ post))
                      (?inner' @ fence @ post)),
              drop (length fence) (fence @ post))"
    by (rule star_lazy_first[OF ns])
  then have "?k (?inner' @ fence @ post) = Some (Some ?inner', post)" by simp
  then have "?k (dropWhile is_space (inner @ fence @ post)) = Some (Some ?inner', post)"
    by (simp only: d)
  then have "star_greedy is_space (inner @ fence @ post) ?k = Some (Some ?inner', post)"
    by (rule star_greedy_hit)
  then show ?thesis by (simp only: block_end_unfold)
qed

lemma block_end_sound:
  assumes "rmatch (seq ([Star Space, Grp (LazyStar AnyC)] @ lits fence)) ic s c
             (\<lambda>s' c. Some (c, s')) = Some m"
  shows "sublist fence s"
proof -
  from assms have "star_greedy is_space s
       (\<lambda>s1. star_lazy (\<lambda>c. True) s1
          (\<lambda>s2. if prefix fence s2
                then Some (Some (take (length s1 - length s2) s1), drop (length fence) s2)
                else None)) = Some m"
    by (simp only: block_end_unfold)
  from star_greedy_suffixD[OF this] obtain t where t: "suffix t s"
    and l: "star_lazy (\<lambda>c. True) t
          (\<lambda>s2. if prefix fence s2
                then Some (Some (take (length t - length s2) t), drop (length fence) s2)
                else None) = Some m"
    by blast
  from star_lazy_sound[OF l] have "sublist fence t" .
  with t show ?thesis using suffix_imp_sublist sublist_order.order_trans by blast
qed


section \<open>The two fence patterns\<close>

lemma lits_append: "lits (a @ b) = lits a @ lits b"
  by (simp add: lits_def)

lemma starts_with_hint:
  "starts_with True (fence @ h) s \<longleftrightarrow> prefix (fence @ map ci_lower h) (map ci_lower s)"
  by (simp add: starts_with_def)

lemma hinted_at:
  "rmatch (seq (lits fence @ lits h @ [Star Space, Grp (LazyStar AnyC)] @ lits fence)) True s None
     (\<lambda>s' c. Some (c, s')) =
   (if prefix (fence @ map ci_lower h) (map ci_lower s)
    then rmatch (seq ([Star Space, Grp (LazyStar AnyC)] @ lits fence)) True
           (drop (length fence + length h) s) None (\<lambda>s' c. Some (c, s'))
    else None)"
proof -
  have "seq (lits fence @ lits h @ [Star Space, Grp (LazyStar AnyC)] @ lits fence) =
        seq (lits (fence @ h) @ ([Star Space, Grp (LazyStar AnyC)] @ lits fence))"
    by (simp only: lits_append append_assoc)
  then show ?thesis
    by (simp only: rmatch_lits starts_with_hint length_append)
qed

lemma hinted_sound:
  assumes "rmatch (seq (lits fence @ lits h @ [Star Space, Grp (LazyStar AnyC)] @ lits fence))
             True s None (\<lambda>s' c. Some (c, s')) = Some m"
  shows "prefix (fence @ map ci_lower h) (map ci_lower s) \<and>
         sublist fence (drop (length fence + length h) s)"
proof -
  have p: "prefix (fence @ map ci_lower h) (map ci_lower s)"
  proof (rule ccontr)
    assume "\<not> prefix (fence @ map ci_lower h) (map ci_lower s)"
    then have "rmatch (seq (lits fence @ lits h @ [Star Space, Grp (LazyStar AnyC)] @ lits fence))
             True s None (\<lambda>s' c. Some (c, s')) = None"
      by (simp only: hinted_at if_False)
    with assms show False by simp
  qed
  with assms have "rmatch (seq ([Star Space, Grp (LazyStar AnyC)] @ lits fence)) True
           (drop (length fence + length h) s) None (\<lambda>s' c. Some (c, s')) = Some m"
    by (simp only: hinted_at if_True)
  from block_end_sound[OF this] p show ?thesis by simp
qed

lemma hinted_search_first:
  assumes k: "map ci_lower k = map ci_lower h"
    and first: "\<not> sublist (fence @ map ci_lower h)
                  (map ci_lower pre @ butlast (fence @ map ci_lower h))"
    and closing: "\<not> sublist fence (inner @ butlast fence)"
  shows "rsearch (seq (lits fence @ lits h @ [Star Space, Grp (LazyStar AnyC)] @ lits fence)) True
           (pre @ fence @ k @ inner @ fence @ post) =
         Some (Some (dropWhile is_space inner), post)"
proof -
  let ?r = "seq (lits fence @ lits h @ [Star Space, Grp (LazyStar AnyC)] @ lits fence)"
  let ?F = "fence @ map ci_lower h"
  let ?s = "fence @ k @ inner @ fence @ post"
  have lk: "length k = length h" using k by (metis length_map)
  have low: "map ci_lower (pre @ ?s) = map ci_lower pre @ ?F @ map ci_lower (inner @ fence @ post)"
    using k by simp
  have skip: "\<And>i. i < length pre \<Longrightarrow> rmatch ?r True (drop i (pre @ ?s)) None (\<lambda>s' c. Some (c, s')) = None"
  proof -
    fix i assume i: "i < length pre"
    then have "i < length (map ci_lower pre)" by simp
    from first_occurrence[OF first this, of "map ci_lower (inner @ fence @ post)"]
    have "\<not> prefix ?F (drop i (map ci_lower (pre @ ?s)))" unfolding low .
    then have "\<not> prefix ?F (map ci_lower (drop i (pre @ ?s)))" unfolding drop_map .
    then show "rmatch ?r True (drop i (pre @ ?s)) None (\<lambda>s' c. Some (c, s')) = None"
      by (simp only: hinted_at if_False)
  qed
  have "prefix ?F (map ci_lower ?s)" using k by simp
  moreover have "drop (length fence + length h) ?s = inner @ fence @ post"
    using lk by simp
  ultimately have "rmatch ?r True ?s None (\<lambda>s' c. Some (c, s')) =
      Some (Some (dropWhile is_space inner), post)"
    using block_end_hit[OF closing, of True post None] by (simp only: hinted_at if_True)
  then have "rsearch ?r True ?s = Some (Some (dropWhile is_space inner), post)"
    by (rule rsearch_hit)
  with rsearch_skip[of pre ?r True ?s, OF skip] show ?thesis by simp
qed


lemma rmatch_suffixD:
  "rmatch r ic s c k = Some m \<Longrightarrow> \<exists>s' c'. suffix s' s \<and> k s' c' = Some m"
proof (induction r arbitrary: s c k)
  case Eps
  then show ?case by auto
next
  case (Lit a)
  then show ?case by (cases s) (auto split: if_splits intro: suffix_ConsI)
next
  case (Star cs)
  then have "star_greedy (in_cset cs) s (\<lambda>s'. k s' c) = Some m" by simp
  from star_greedy_suffixD[OF this] show ?case by blast
next
  case (Plus cs)
  then obtain x xs where s: "s = x # xs"
    and g: "star_greedy (in_cset cs) xs (\<lambda>s'. k s' c) = Some m"
    by (cases s) (auto split: if_splits)
  from star_greedy_suffixD[OF g] s show ?case by (auto intro: suffix_ConsI)
next
  case (LazyStar cs)
  then have "star_lazy (in_cset cs) s (\<lambda>s'. k s' c) = Some m" by simp
  from star_lazy_suffixD[OF this] show ?case by blast
next
  case (Opt r)
  show ?case
  proof (cases "rmatch r ic s c k")
    case None
    with Opt.prems have "k s c = Some m" by simp
    then show ?thesis by auto
  next
    case (Some a)
    with Opt.prems have "rmatch r ic s c k = Some m" by simp
    from Opt.IH[OF this] show ?thesis .
  qed
next
  case (Grp r)
  from Grp.prems have "rmatch r ic s c (\<lambda>s' c'. k s' (Some (take (length s - length s') s))) = Some m"
    by simp
  from Grp.IH[OF this] show ?case by blast
next
  case (Cat a b)
  from Cat.prems have "rmatch a ic s c (\<lambda>s' c'. rmatch b ic s' c' k) = Some m" by simp
  from Cat.IH(1)[OF this] obtain s' c' where
    1: "suffix s' s" and 2: "rmatch b ic s' c' k = Some m" by blast
  from Cat.IH(2)[OF 2] obtain s'' c'' where "suffix s'' s'" "k s'' c'' = Some m" by blast
  with 1 show ?case using suffix_order.order_trans by blast
qed

lemma any_at:
  "rmatch any_fence_pattern False s None (\<lambda>s' c. Some (c, s')) =
   (if prefix fence s
    then rmatch (Opt (Plus WordC)) False (drop (length fence) s) None
           (\<lambda>s' c'. rmatch (seq ([Star Space, Grp (LazyStar AnyC)] @ lits fence)) False s' c'
                      (\<lambda>s' c. Some (c, s')))
    else None)"
proof -
  have "any_fence_pattern =
        seq (lits fence @ (Opt (Plus WordC) # ([Star Space, Grp (LazyStar AnyC)] @ lits fence)))"
    by (simp add: any_fence_pattern_def)
  then have "rmatch any_fence_pattern False s None (\<lambda>s' c. Some (c, s')) =
        rmatch (seq (lits fence @ (Opt (Plus WordC) # ([Star Space, Grp (LazyStar AnyC)] @ lits fence))))
          False s None (\<lambda>s' c. Some (c, s'))"
    by (rule arg_cong)
  also have "\<dots> = (if starts_with False fence s
      then rmatch (seq (Opt (Plus WordC) # ([Star Space, Grp (LazyStar AnyC)] @ lits fence)))
             False (drop (length fence) s) None (\<lambda>s' c. Some (c, s'))
      else None)"
    by (rule rmatch_lits)
  finally show ?thesis
    by (simp only: rmatch_seq_Cons starts_with_fence)
qed

lemma any_sound:
  assumes "rmatch any_fence_pattern False s None (\<lambda>s' c. Some (c, s')) = Some m"
  shows "prefix fence s \<and> sublist fence (drop (length fence) s)"
proof -
  have p: "prefix fence s"
  proof (rule ccontr)
    assume "\<not> prefix fence s"
    then have "rmatch any_fence_pattern False s None (\<lambda>s' c. Some (c, s')) = None"
      by (simp only: any_at if_False)
    with assms show False by simp
  qed
  with assms have "rmatch (Opt (Plus WordC)) False (drop (length fence) s) None
           (\<lambda>s' c'. rmatch (seq ([Star Space, Grp (LazyStar AnyC)] @ lits fence)) False s' c'
                      (\<lambda>s' c. Some (c, s'))) = Some m"
    by (simp only: any_at if_True)
  from rmatch_suffixD[OF this] obtain s' c' where
    1: "suffix s' (drop (length fence) s)" and
    2: "rmatch (seq ([Star Space, Grp (LazyStar AnyC)] @ lits fence)) False s' c'
          (\<lambda>s' c. Some (c, s')) = Some m"
    by blast
  from block_end_sound[OF 2] have "sublist fence s'" .
  with 1 have "sublist fence (drop (length fence) s)"
    using suffix_imp_sublist sublist_order.order_trans by blast
  with p show ?thesis by simp
qed

lemma dropWhile_all_then_stop:
  "(\<And>x. x \<in> set ls \<Longrightarrow> P x) \<Longrightarrow> ys = [] \<or> \<not> P (hd ys) \<Longrightarrow> dropWhile P (ls @ ys) = ys"
  by (induction ls) (cases ys; simp)+

lemma any_hit:
  assumes label: "list_all is_word label"
    and stop: "inner = [] \<or> \<not> is_word (hd inner)"
    and closing: "\<not> sublist fence (inner @ butlast fence)"
  shows "rmatch any_fence_pattern False (fence @ label @ inner @ fence @ post) None
           (\<lambda>s' c. Some (c, s')) = Some (Some (dropWhile is_space inner), post)"
proof -
  let ?E = "seq ([Star Space, Grp (LazyStar AnyC)] @ lits fence)"
  let ?K = "\<lambda>s' c'. rmatch ?E False s' c' (\<lambda>s' c. Some (c, s'))"
  let ?rest = "inner @ fence @ post"
  have E: "?K ?rest None = Some (Some (dropWhile is_space inner), post)"
    by (rule block_end_hit[OF closing])
  have nw: "?rest = [] \<or> \<not> is_word (hd ?rest)"
    using stop by (cases inner) auto
  have ne: "?rest \<noteq> []" by simp
  have opt: "rmatch (Opt (Plus WordC)) False (label @ ?rest) None ?K =
             Some (Some (dropWhile is_space inner), post)"
  proof (cases label)
    case Nil
    from ne nw have "rmatch (Plus WordC) False ?rest None ?K = None"
      by (cases ?rest) auto
    with E Nil show ?thesis by simp
  next
    case (Cons l ls)
    with label have l: "is_word l" and ls: "\<And>x. x \<in> set ls \<Longrightarrow> is_word x"
      by (auto simp: list_all_iff)
    have "dropWhile is_word (ls @ ?rest) = ?rest"
      using dropWhile_all_then_stop[of ls is_word ?rest] ls nw by blast
    with E have "(\<lambda>s'. ?K s' None) (dropWhile is_word (ls @ ?rest)) =
                 Some (Some (dropWhile is_space inner), post)"
      by simp
    then have "star_greedy is_word (ls @ ?rest) (\<lambda>s'. ?K s' None) =
               Some (Some (dropWhile is_space inner), post)"
      by (rule star_greedy_hit)
    with l Cons show ?thesis by simp
  qed
  have "prefix fence (fence @ label @ ?rest)" by simp
  moreover have "drop (length fence) (fence @ label @ ?rest) = label @ ?rest" by simp
  ultimately show ?thesis using opt by (simp only: any_at if_True)
qed

lemma any_search_first:
  assumes first: "\<not> sublist fence (pre @ butlast fence)"
    and label: "list_all is_word label"
    and stop: "inner = [] \<or> \<not> is_word (hd inner)"
    and closing: "\<not> sublist fence (inner @ butlast fence)"
  shows "rsearch any_fence_pattern False (pre @ fence @ label @ inner @ fence @ post) =
         Some (Some (dropWhile is_space inner), post)"
proof -
  let ?s = "fence @ label @ inner @ fence @ post"
  have skip: "\<And>i. i < length pre \<Longrightarrow>
      rmatch any_fence_pattern False (drop i (pre @ ?s)) None (\<lambda>s' c. Some (c, s')) = None"
  proof -
    fix i assume "i < length pre"
    from first_occurrence[OF first this, of "label @ inner @ fence @ post"]
    have "\<not> prefix fence (drop i (pre @ ?s))" .
    then show "rmatch any_fence_pattern False (drop i (pre @ ?s)) None (\<lambda>s' c. Some (c, s')) = None"
      by (simp only: any_at if_False)
  qed
  have "rsearch any_fence_pattern False ?s = Some (Some (dropWhile is_space inner), post)"
    by (rule rsearch_hit) (rule any_hit[OF label stop closing])
  with rsearch_skip[of pre any_fence_pattern False ?s, OF skip] show ?thesis by simp
qed


section \<open>Searching a text that has no block\<close>

lemma any_search_none:
  assumes "\<not> has_fenced_block text"
  shows "rsearch any_fence_pattern False text = None"
proof (rule rsearch_none)
  fix t assume t: "suffix t text"
  show "rmatch any_fence_pattern False t None (\<lambda>s' c. Some (c, s')) = None"
  proof (cases "rmatch any_fence_pattern False t None (\<lambda>s' c. Some (c, s'))")
    case None
    then show ?thesis .
  next
    case (Some m)
    from any_sound[OF Some] t have "has_fenced_block text"
      by (simp only: has_fenced_block_def list_ex_iff) (rule bexI[of _ t], simp_all only: in_set_suffixes)
    with assms show ?thesis by simp
  qed
qed

lemma hinted_search_none:
  assumes "\<not> has_fence_starting_with h text"
  shows "rsearch (seq (lits fence @ lits h @ [Star Space, Grp (LazyStar AnyC)] @ lits fence))
           True text = None"
proof (rule rsearch_none)
  fix t assume t: "suffix t text"
  let ?r = "seq (lits fence @ lits h @ [Star Space, Grp (LazyStar AnyC)] @ lits fence)"
  show "rmatch ?r True t None (\<lambda>s' c. Some (c, s')) = None"
  proof (cases "rmatch ?r True t None (\<lambda>s' c. Some (c, s'))")
    case None
    then show ?thesis .
  next
    case (Some m)
    from hinted_sound[OF Some] t have "has_fence_starting_with h text"
      by (simp only: has_fence_starting_with_def list_ex_iff) (rule bexI[of _ t], simp_all only: in_set_suffixes)
    with assms show ?thesis by simp
  qed
qed

lemma has_fence_starting_with_imp:
  assumes "has_fence_starting_with h text"
  shows "has_fenced_block text"
proof -
  from assms have "\<exists>u\<in>set (suffixes text). prefix (fence @ map ci_lower h) (map ci_lower u) \<and>
      sublist fence (drop (length fence + length h) u)"
    by (simp only: has_fence_starting_with_def list_ex_iff)
  then obtain u where u0: "u \<in> set (suffixes text)"
    and p: "prefix (fence @ map ci_lower h) (map ci_lower u)"
    and c: "sublist fence (drop (length fence + length h) u)"
    by (elim bexE conjE)
  from u0 have u: "suffix u text" by (simp only: in_set_suffixes)
  from p have "prefix fence (map ci_lower u)"
    by (rule append_prefixD)
  then have "prefix (map ci_lower fence) (map ci_lower u)"
    by (simp only: fence_facts)
  then have "starts_with True fence u" by (simp only: starts_with_def if_True)
  then have 1: "prefix fence u" by (simp only: starts_with_fence)
  have "drop (length fence + length h) u = drop (length h) (drop (length fence) u)"
    by (simp only: drop_drop add.commute)
  then have "suffix (drop (length fence + length h) u) (drop (length fence) u)"
    by (simp only: suffix_drop)
  then have "sublist (drop (length fence + length h) u) (drop (length fence) u)"
    by (rule suffix_imp_sublist)
  with c have 2: "sublist fence (drop (length fence) u)"
    by (rule sublist_order.order_trans)
  from u0 1 2 show ?thesis
    by (simp only: has_fenced_block_def list_ex_iff) (rule bexI[of _ u], simp_all)
qed


section \<open>The extractor on a text with a block, and on a text with none\<close>

lemma strip_dropWhile: "strip (dropWhile is_space s) = strip s"
  by (simp add: strip_def)

lemma group1_strip_block:
  "group1_strip (Some (dropWhile is_space inner), post) = Returned (strip inner)"
  by (simp add: group1_strip_def strip_dropWhile)

lemma any_fenced_block_first:
  assumes "\<not> occurs_within fence pre" and "list_all is_word label"
    and "inner = [] \<or> \<not> is_word (hd inner)" and "\<not> occurs_within fence inner"
  shows "any_fenced_block (pre @ fence @ label @ inner @ fence @ post) = Returned (strip inner)"
proof -
  from assms have "rsearch any_fence_pattern False (pre @ fence @ label @ inner @ fence @ post) =
         Some (Some (dropWhile is_space inner), post)"
    unfolding occurs_within_def by (rule any_search_first)
  then show ?thesis by (simp only: any_fenced_block_def option.case group1_strip_block)
qed

lemma any_fenced_block_none:
  assumes "\<not> has_fenced_block text"
  shows "any_fenced_block text = Returned (strip text)"
  using any_search_none[OF assms] by (simp only: any_fenced_block_def option.case)

lemma hinted_pattern_plain:
  "plain_name h \<Longrightarrow>
   hinted_pattern h = Compiled (seq (lits fence @ lits h @ [Star Space, Grp (LazyStar AnyC)] @ lits fence))"
  by (simp add: hinted_pattern_def plain_name_def)

lemma extract_hinted_first:
  assumes plain: "plain_name h" and ne: "h \<noteq> []"
    and k: "map ci_lower k = map ci_lower h"
    and first: "\<not> occurs_within (fence @ map ci_lower h) (map ci_lower pre)"
    and closing: "\<not> occurs_within fence inner"
  shows "extract_code_block (pre @ fence @ k @ inner @ fence @ post) (Some h) = Returned (strip inner)"
proof -
  from first closing
  have "rsearch (seq (lits fence @ lits h @ [Star Space, Grp (LazyStar AnyC)] @ lits fence)) True
          (pre @ fence @ k @ inner @ fence @ post) = Some (Some (dropWhile is_space inner), post)"
    unfolding occurs_within_def by (rule hinted_search_first[OF k])
  with ne show ?thesis
    by (simp only: extract_code_block_def option.case if_False hinted_pattern_plain[OF plain]
          compiled.case group1_strip_block)
qed

lemma extract_falls_back:
  assumes "case lang_hint of None \<Rightarrow> True
           | Some h \<Rightarrow> plain_name h \<and> (h = [] \<or> \<not> has_fence_starting_with h text)"
  shows "extract_code_block text lang_hint = any_fenced_block text"
proof (cases lang_hint)
  case None
  then show ?thesis by (simp add: extract_code_block_def)
next
  case (Some h)
  show ?thesis
  proof (cases "h = []")
    case True
    with Some show ?thesis by (simp add: extract_code_block_def)
  next
    case False
    with assms Some have plain: "plain_name h" and no: "\<not> has_fence_starting_with h text" by simp_all
    from hinted_search_none[OF no] Some False show ?thesis
      by (simp only: extract_code_block_def option.case if_False hinted_pattern_plain[OF plain]
            compiled.case)
  qed
qed


section \<open>The analyzer: participants\<close>

lemma set_extend_all:
  "set (extend_all ps code acc) = set acc \<union> (\<Union>p\<in>set ps. set (findall p True code))"
  by (induction ps arbitrary: acc) auto

lemma actors_sorted_list_of_set:
  "extract_actors_from_plantuml code =
     sorted_list_of_set (\<Union>p\<in>set participant_patterns. set (findall p True code))"
proof -
  have "set (extend_all participant_patterns code []) =
        (\<Union>p\<in>set participant_patterns. set (findall p True code))"
    by (simp only: set_extend_all list.set Un_empty_left)
  then show ?thesis
    by (simp only: extract_actors_from_plantuml_def sorted_list_of_set_sort_remdups[symmetric])
qed

lemma findall_none: "rsearch r ic s = None \<Longrightarrow> findall r ic s = []"
  by (subst findall.simps) simp

lemma findall_hit: "rsearch r ic s = Some (Some g, s') \<Longrightarrow> g \<in> set (findall r ic s)"
  by (subst findall.simps) simp

lemma keyword_absent:
  assumes "\<not> sublist (map ci_lower kw) (map ci_lower code)"
  shows "rsearch (seq (lits kw @ rs)) True code = None"
proof (rule rsearch_none)
  fix t assume t: "suffix t code"
  have "\<not> starts_with True kw t"
  proof
    assume "starts_with True kw t"
    then have "prefix (map ci_lower kw) (map ci_lower t)"
      by (simp only: starts_with_def if_True)
    moreover from t have "suffix (map ci_lower t) (map ci_lower code)"
      by (rule map_mono_suffix)
    ultimately have "sublist (map ci_lower kw) (map ci_lower code)"
      unfolding sublist_altdef' by blast
    with assms show False by simp
  qed
  then show "rmatch (seq (lits kw @ rs)) True t None (\<lambda>s' c. Some (c, s')) = None"
    by (simp only: rmatch_lits if_False)
qed

lemma space_not_word: "is_space c \<Longrightarrow> \<not> is_word c"
  unfolding is_space_def by (auto simp: is_word_def)

lemma word_not_space: "is_word c \<Longrightarrow> \<not> is_space c"
  using space_not_word by blast

lemma keyword_matches:
  assumes "map ci_lower u = map ci_lower kw"
  shows "rmatch (seq (lits kw @ rs)) True (u @ rest) c k = rmatch (seq rs) True rest c k"
proof -
  from arg_cong[OF assms, of length] have "length u = length kw" by simp
  then have d: "drop (length kw) (u @ rest) = rest" by simp
  from assms have sw: "starts_with True kw (u @ rest)"
    by (simp add: starts_with_def)
  show ?thesis by (simp only: rmatch_lits sw if_True d)
qed

lemma plus_all:
  assumes "xs \<noteq> []" and "\<And>x. x \<in> set xs \<Longrightarrow> in_cset cs x"
    and "rest = [] \<or> \<not> in_cset cs (hd rest)"
    and "k rest c = Some m"
  shows "rmatch (Plus cs) ic (xs @ rest) c k = Some m"
proof -
  from assms(1) obtain y ys where xs: "xs = y # ys" by (cases xs) auto
  with assms(2) have y: "in_cset cs y" and ys: "\<And>x. x \<in> set ys \<Longrightarrow> in_cset cs x" by auto
  have "dropWhile (in_cset cs) (ys @ rest) = rest"
    using dropWhile_all_then_stop[of ys "in_cset cs" rest] ys assms(3) by blast
  with assms(4) have "(\<lambda>s'. k s' c) (dropWhile (in_cset cs) (ys @ rest)) = Some m" by simp
  then have "star_greedy (in_cset cs) (ys @ rest) (\<lambda>s'. k s' c) = Some m"
    by (rule star_greedy_hit)
  with y xs show ?thesis by simp
qed

lemma grp_plus_all:
  assumes "xs \<noteq> []" and "\<And>x. x \<in> set xs \<Longrightarrow> in_cset cs x"
    and "rest = [] \<or> \<not> in_cset cs (hd rest)"
    and "k rest (Some xs) = Some m"
  shows "rmatch (Grp (Plus cs)) ic (xs @ rest) c k = Some m"
proof -
  let ?k = "\<lambda>s' c'. k s' (Some (take (length (xs @ rest) - length s') (xs @ rest)))"
  have "rmatch (Grp (Plus cs)) ic (xs @ rest) c k = rmatch (Plus cs) ic (xs @ rest) c ?k"
    by simp
  moreover from assms(4) have 4: "?k rest c = Some m" by simp
  have "rmatch (Plus cs) ic (xs @ rest) c ?k = Some m"
    by (rule plus_all[where k = ?k, OF assms(1) assms(2) assms(3) 4])
  ultimately show ?thesis by (simp only:)
qed

lemma keyword_first:
  assumes u: "map ci_lower u = map ci_lower kw"
    and first: "\<not> occurs_within (map ci_lower kw) (map ci_lower pre)"
    and hit: "rmatch (seq (lits kw @ rs)) True (u @ rest) None (\<lambda>s' c. Some (c, s')) = Some m"
  shows "rsearch (seq (lits kw @ rs)) True (pre @ u @ rest) = Some m"
proof -
  let ?r = "seq (lits kw @ rs)"
  let ?K = "map ci_lower kw"
  have low: "map ci_lower (pre @ u @ rest) = map ci_lower pre @ ?K @ map ci_lower rest"
    using u by simp
  have first': "\<not> sublist ?K (map ci_lower pre @ butlast ?K)"
    using first unfolding occurs_within_def .
  have skip: "\<And>i. i < length pre \<Longrightarrow>
      rmatch ?r True (drop i (pre @ u @ rest)) None (\<lambda>s' c. Some (c, s')) = None"
  proof -
    fix i assume i: "i < length pre"
    then have "i < length (map ci_lower pre)" by simp
    from first_occurrence[OF first' this, of "map ci_lower rest"]
    have "\<not> prefix ?K (drop i (map ci_lower (pre @ u @ rest)))" unfolding low .
    then have "\<not> prefix ?K (map ci_lower (drop i (pre @ u @ rest)))" unfolding drop_map .
    then have "\<not> starts_with True kw (drop i (pre @ u @ rest))"
      unfolding starts_with_def if_True .
    then show "rmatch ?r True (drop i (pre @ u @ rest)) None (\<lambda>s' c. Some (c, s')) = None"
      by (simp only: rmatch_lits if_False)
  qed
  from hit have "rsearch ?r True (u @ rest) = Some m" by (rule rsearch_hit)
  with rsearch_skip[of pre ?r True "u @ rest", OF skip] show ?thesis by simp
qed

lemma lit_here: "rmatch (Lit a) ic (a # s) c k = k s c"
  by (simp add: chr_eq_def)

lemma bare_declaration:
  assumes u: "map ci_lower u = map ci_lower kw"
    and ws: "ws \<noteq> []" "list_all is_space ws"
    and name: "name \<noteq> []" "list_all is_word name"
    and post: "post = [] \<or> \<not> is_word (hd post)"
    and first: "\<not> occurs_within (map ci_lower kw) (map ci_lower pre)"
  shows "name \<in> set (findall (bare_pattern kw) True (pre @ u @ ws @ name @ post))"
proof -
  let ?final = "\<lambda>s' c. Some (c, s')"
  let ?k1 = "\<lambda>s' c'. rmatch (seq []) True s' c' ?final"
  let ?k2 = "\<lambda>s' c'. rmatch (seq [Grp (Plus WordC)]) True s' c' ?final"
  have wsall: "\<And>x. x \<in> set ws \<Longrightarrow> in_cset Space x"
    using ws(2) by (simp add: list_all_iff)
  have nameall: "\<And>x. x \<in> set name \<Longrightarrow> in_cset WordC x"
    using name(2) by (simp add: list_all_iff)
  have stop1: "post = [] \<or> \<not> in_cset WordC (hd post)"
    using post by simp
  have stop2: "name @ post = [] \<or> \<not> in_cset Space (hd (name @ post))"
    using name by (cases name) (simp_all add: word_not_space)
  have e: "?k1 post (Some name) = Some (Some name, post)"
    by (simp only: rmatch_seq_Nil)
  have "rmatch (Grp (Plus WordC)) True (name @ post) None ?k1 = Some (Some name, post)"
    by (rule grp_plus_all[where k = ?k1, OF name(1) nameall stop1 e])
  then have g: "?k2 (name @ post) None = Some (Some name, post)"
    by (simp only: rmatch_seq_Cons)
  have "rmatch (Plus Space) True (ws @ name @ post) None ?k2 = Some (Some name, post)"
    by (rule plus_all[where k = ?k2, OF ws(1) wsall stop2 g])
  then have "rmatch (seq (lits kw @ [Plus Space, Grp (Plus WordC)])) True (u @ ws @ name @ post)
               None ?final = Some (Some name, post)"
    by (simp only: keyword_matches[OF u] rmatch_seq_Cons)
  then have "rsearch (seq (lits kw @ [Plus Space, Grp (Plus WordC)])) True
               (pre @ u @ ws @ name @ post) = Some (Some name, post)"
    by (rule keyword_first[OF u first])
  then have "rsearch (bare_pattern kw) True (pre @ u @ ws @ name @ post) = Some (Some name, post)"
    by (simp only: bare_pattern_def)
  then show ?thesis by (rule findall_hit)
qed

lemma quoted_declaration:
  assumes u: "map ci_lower u = map ci_lower kw"
    and ws: "ws \<noteq> []" "list_all is_space ws"
    and name: "name \<noteq> []" "CHR 0x22 \<notin> set name"
    and first: "\<not> occurs_within (map ci_lower kw) (map ci_lower pre)"
  shows "name \<in> set (findall (quoted_pattern kw) True
                        (pre @ u @ ws @ CHR 0x22 # name @ CHR 0x22 # post))"
proof -
  let ?final = "\<lambda>s' c. Some (c, s')"
  let ?q = "CHR 0x22"
  let ?k1 = "\<lambda>s' c'. rmatch (seq [Lit ?q]) True s' c' ?final"
  let ?k2 = "\<lambda>s' c'. rmatch (seq [Lit ?q, Grp (Plus NotQuote), Lit ?q]) True s' c' ?final"
  have wsall: "\<And>x. x \<in> set ws \<Longrightarrow> in_cset Space x"
    using ws(2) by (simp add: list_all_iff)
  have nameall: "\<And>x. x \<in> set name \<Longrightarrow> in_cset NotQuote x"
    using name(2) by auto
  have stop1: "?q # post = [] \<or> \<not> in_cset NotQuote (hd (?q # post))"
    by simp
  have stop2: "?q # name @ ?q # post = [] \<or> \<not> in_cset Space (hd (?q # name @ ?q # post))"
    by (simp add: is_space_def)
  have e: "?k1 (?q # post) (Some name) = Some (Some name, post)"
    by (simp only: rmatch_seq_Cons rmatch_seq_Nil lit_here)
  have "rmatch (Grp (Plus NotQuote)) True (name @ ?q # post) None ?k1 = Some (Some name, post)"
    by (rule grp_plus_all[where k = ?k1, OF name(1) nameall stop1 e])
  then have g: "?k2 (?q # name @ ?q # post) None = Some (Some name, post)"
    by (simp only: rmatch_seq_Cons lit_here)
  have "rmatch (Plus Space) True (ws @ ?q # name @ ?q # post) None ?k2 = Some (Some name, post)"
    by (rule plus_all[where k = ?k2, OF ws(1) wsall stop2 g])
  then have "rmatch (seq (lits kw @ [Plus Space, Lit ?q, Grp (Plus NotQuote), Lit ?q])) True
               (u @ ws @ ?q # name @ ?q # post) None ?final = Some (Some name, post)"
    by (simp only: keyword_matches[OF u] rmatch_seq_Cons)
  then have "rsearch (seq (lits kw @ [Plus Space, Lit ?q, Grp (Plus NotQuote), Lit ?q])) True
               (pre @ u @ ws @ ?q # name @ ?q # post) = Some (Some name, post)"
    by (rule keyword_first[OF u first])
  then have "rsearch (quoted_pattern kw) True (pre @ u @ ws @ ?q # name @ ?q # post) =
             Some (Some name, post)"
    by (simp only: quoted_pattern_def)
  then show ?thesis by (rule findall_hit)
qed

lemma patterns_of_keyword:
  "kw \<in> set participant_keywords \<Longrightarrow>
   quoted_pattern kw \<in> set participant_patterns \<and> bare_pattern kw \<in> set participant_patterns"
  by (auto simp: participant_patterns_def)

lemma actors_member:
  "p \<in> set participant_patterns \<Longrightarrow> g \<in> set (findall p True code) \<Longrightarrow>
   g \<in> set (extract_actors_from_plantuml code)"
  by (auto simp: extract_actors_from_plantuml_def set_extend_all)

lemma no_keyword_no_actor:
  assumes "\<And>kw. kw \<in> set participant_keywords \<Longrightarrow> \<not> sublist (map ci_lower kw) (map ci_lower code)"
  shows "extract_actors_from_plantuml code = []"
proof -
  have "\<And>p. p \<in> set participant_patterns \<Longrightarrow> findall p True code = []"
  proof -
    fix p assume "p \<in> set participant_patterns"
    then obtain kw where kw: "kw \<in> set participant_keywords"
      and p: "p = quoted_pattern kw \<or> p = bare_pattern kw"
      by (auto simp: participant_patterns_def)
    from assms[OF kw] have "\<And>rs. rsearch (seq (lits kw @ rs)) True code = None"
      by (rule keyword_absent)
    with p have "rsearch p True code = None"
      by (auto simp only: quoted_pattern_def bare_pattern_def)
    then show "findall p True code = []" by (rule findall_none)
  qed
  then have "set (extend_all participant_patterns code []) = {}"
    by (simp add: set_extend_all)
  then show ?thesis by (simp add: extract_actors_from_plantuml_def)
qed


section \<open>The analyzer: activities\<close>

lemma activity_lines_filter:
  "activity_lines ls = map strip (filter (\<lambda>l. sublist ''->'' l \<and> sublist '':'' l) ls)"
  by (induction ls) simp_all

lemma splitlines_from_line:
  assumes "\<not> list_ex is_linebreak l"
  shows "splitlines_from cur (l @ CHR 0x0A # rest) = (cur @ l) # splitlines_from [] rest"
  using assms
proof (induction l arbitrary: cur)
  case Nil
  then show ?case by (simp add: is_linebreak_def)
next
  case (Cons a l)
  then have a: "\<not> is_linebreak a" and l: "\<not> list_ex is_linebreak l" by simp_all
  from a have "a \<noteq> CHR 0x0D" by (auto simp: is_linebreak_def)
  with a Cons.IH[OF l, of "cur @ [a]"] show ?case by simp
qed

lemma splitlines_terminated:
  "list_all (\<lambda>l. \<not> list_ex is_linebreak l) ls \<Longrightarrow>
   splitlines_from [] (concat (map (\<lambda>l. l @ [CHR 0x0A]) ls)) = ls"
proof (induction ls)
  case Nil
  then show ?case by simp
next
  case (Cons l ls)
  then have "\<not> list_ex is_linebreak l" by simp
  from splitlines_from_line[OF this, of "[]" "concat (map (\<lambda>l. l @ [CHR 0x0A]) ls)"] Cons
  show ?case by simp
qed


section \<open>The scenarios, evaluated\<close>

lemma scenario_c_extract:
  "extract_code_block scenario_c_response (Some ''plantuml'') =
     Returned (''A -> B: ping'' @ [CHR 0x0A] @ ''B -> A: pong'')"
  by code_simp

lemma scenario_c_actors:
  "extract_actors_from_plantuml (''A -> B: ping'' @ [CHR 0x0A] @ ''B -> A: pong'') = []"
  by code_simp

lemma scenario_c_activities:
  "extract_activities_from_plantuml (''A -> B: ping'' @ [CHR 0x0A] @ ''B -> A: pong'') =
     [''A -> B: ping'', ''B -> A: pong'']"
  by code_simp

lemma scenario_b_refine_body:
  "refine_body scenario_b_env ''A -> B: ping'' ''add a reply'' ''static'' =
     Raised (Failure ''PlantUML rendering failed'')"
  by code_simp

lemma scenario_b_generate_body:
  "generate_body scenario_b_env ''/tmp/tmpcases.csv'' ''static'' =
     Raised (Failure ''PlantUML rendering failed'')"
  by code_simp

section \<open>The orchestrators: failure isolation and the result invariant\<close>

text \<open>
  Inside the \<open>try\<close> blocks the catch-all works. \<open>refine_plantuml_code\<close> always returns
  a result, and an exception raised in its \<open>try\<close> block becomes the failure result
  that carries the exception's message. \<open>process_csv_and_generate\<close> does the same once
  the copy of the CSV has been written and provided the removal of that copy in the
  \<open>finally\<close> block succeeds.
\<close>

lemma orchestrators_catch_in_try:
  "(\<exists>r. refine_plantuml_code env code message dir = Returned r) \<and>
   (refine_body env code message dir = Raised e \<longrightarrow>
      refine_plantuml_code env code message dir = Returned (failure_result e) \<and>
      error (failure_result e) = Some (exn_message e)) \<and>
   (write_temp_csv env csv_path = Inr tmp \<longrightarrow> unlink_temp env tmp = Inr u \<longrightarrow>
      (\<exists>r. process_csv_and_generate env csv_path dir = Returned r) \<and>
      (generate_body env tmp dir = Raised e' \<longrightarrow>
         process_csv_and_generate env csv_path dir = Returned (failure_result e') \<and>
         error (failure_result e') = Some (exn_message e')))"
proof -
  have 1: "\<exists>r. refine_plantuml_code env code message dir = Returned r"
    using catch_all_invariant[OF refine_body_cases[of env code message dir]]
    by (auto simp: refine_plantuml_code_def)
  have 2: "refine_body env code message dir = Raised e \<longrightarrow>
      refine_plantuml_code env code message dir = Returned (failure_result e) \<and>
      error (failure_result e) = Some (exn_message e)"
    by (simp add: refine_plantuml_code_def catch_all_def failure_result_def)
  have 3: "write_temp_csv env csv_path = Inr tmp \<longrightarrow> unlink_temp env tmp = Inr u \<longrightarrow>
      (\<exists>r. process_csv_and_generate env csv_path dir = Returned r)"
    using catch_all_invariant[OF generate_body_cases[of env tmp dir]]
    by (auto simp: process_csv_and_generate_def)
  have 4: "write_temp_csv env csv_path = Inr tmp \<longrightarrow> unlink_temp env tmp = Inr u \<longrightarrow>
      generate_body env tmp dir = Raised e' \<longrightarrow>
         process_csv_and_generate env csv_path dir = Returned (failure_result e') \<and>
         error (failure_result e') = Some (exn_message e')"
    by (simp add: process_csv_and_generate_def catch_all_def failure_result_def)
  from 1 2 3 4 show ?thesis by blast
qed

text \<open>
  The copy of the CSV stands before the \<open>try\<close> statement and the removal of the copy
  in the \<open>finally\<close> block: an exception of either leaves \<open>process_csv_and_generate\<close>.
\<close>

lemma copy_failure_escapes:
  "write_temp_csv env csv_path = Inl e \<Longrightarrow>
   process_csv_and_generate env csv_path dir = Raised e"
  by (simp add: process_csv_and_generate_def)

lemma unlink_failure_escapes:
  "write_temp_csv env csv_path = Inr tmp \<Longrightarrow> unlink_temp env tmp = Inl e \<Longrightarrow>
   process_csv_and_generate env csv_path dir = Raised e"
  by (simp add: process_csv_and_generate_def Let_def)

text \<open>
  Claim C1 fails on the code: the orchestrator \<open>process_csv_and_generate\<close> lets an
  exception escape to its caller. When the upload is an empty file, \<open>pd.read_csv\<close>
  raises \<open>No columns to parse from file\<close> on line 32, before the \<open>try\<close> statement, and
  the call raises that exception in place of returning the failure result.
\<close>

theorem read_failure_escapes:
  "process_csv_and_generate unreadable_csv_env ''cases.csv'' ''static'' =
     Raised (Failure ''No columns to parse from file'')"
  by (simp add: process_csv_and_generate_def unreadable_csv_env_def)

text \<open>
  Claim C2: every result record that \<open>process_csv_and_generate\<close> or
  \<open>refine_plantuml_code\<close> returns satisfies the invariant: success exactly when
  source and image are present and the error absent, failure exactly when they are
  absent and the error present, and no actors or activities on failure.
\<close>

theorem results_satisfy_invariant:
  "(process_csv_and_generate env csv_path dir = Returned r \<longrightarrow> result_invariant r) \<and>
   (refine_plantuml_code env code message dir = Returned r' \<longrightarrow> result_invariant r')"
proof -
  have a: "refine_plantuml_code env code message dir = Returned r' \<longrightarrow> result_invariant r'"
    using catch_all_invariant[OF refine_body_cases[of env code message dir]]
    by (auto simp: refine_plantuml_code_def)
  have b: "process_csv_and_generate env csv_path dir = Returned r \<longrightarrow> result_invariant r"
  proof (cases "write_temp_csv env csv_path")
    case (Inl e)
    then show ?thesis by (simp add: process_csv_and_generate_def)
  next
    case (Inr tmp)
    from catch_all_invariant[OF generate_body_cases[of env tmp dir]] Inr show ?thesis
      by (auto simp: process_csv_and_generate_def split: sum.splits)
  qed
  from a b show ?thesis by simp
qed

theorem results_satisfy_invariant_witness:
  "process_csv_and_generate scenario_c_env ''cases.csv'' ''static'' =
     Returned (success_result (''A -> B: ping'' @ [CHR 0x0A] @ ''B -> A: pong'')
                 ''static/e2e_test_diagram.png'') \<and>
   result_invariant (success_result (''A -> B: ping'' @ [CHR 0x0A] @ ''B -> A: pong'')
                 ''static/e2e_test_diagram.png'') \<and>
   refine_plantuml_code scenario_b_env ''A -> B: ping'' ''add a reply'' ''static'' =
     Returned (failure_result (Failure ''PlantUML rendering failed'')) \<and>
   result_invariant (failure_result (Failure ''PlantUML rendering failed''))"
proof -
  have p: "process_csv_and_generate scenario_c_env ''cases.csv'' ''static'' =
     Returned (success_result (''A -> B: ping'' @ [CHR 0x0A] @ ''B -> A: pong'')
                 ''static/e2e_test_diagram.png'')"
    using scenario_c_extract
    by (simp add: process_csv_and_generate_def generate_body_def extract_render_analyze_def
          extract_from_content_def catch_all_def scenario_c_env_def)
  have q: "refine_plantuml_code scenario_b_env ''A -> B: ping'' ''add a reply'' ''static'' =
     Returned (failure_result (Failure ''PlantUML rendering failed''))"
    using scenario_b_refine_body by (simp add: refine_plantuml_code_def catch_all_def)
  have 1: "result_invariant (success_result (''A -> B: ping'' @ [CHR 0x0A] @ ''B -> A: pong'')
                 ''static/e2e_test_diagram.png'')"
    using results_satisfy_invariant
            [where env = scenario_c_env and csv_path = "''cases.csv''" and dir = "''static''"
               and r = "success_result (''A -> B: ping'' @ [CHR 0x0A] @ ''B -> A: pong'')
                          ''static/e2e_test_diagram.png''"]
          p
    by simp
  have 2: "result_invariant (failure_result (Failure ''PlantUML rendering failed''))"
    using results_satisfy_invariant
            [where env = scenario_b_env and code = "''A -> B: ping''"
               and message = "''add a reply''" and dir = "''static''"
               and r' = "failure_result (Failure ''PlantUML rendering failed'')"]
          q
    by simp
  from p q 1 2 show ?thesis by simp
qed

section \<open>Scenario C\<close>

text \<open>
  Claim C9, as the code has it: when the refinement agent answers with the fenced
  block of the two lines \<open>A -> B: ping\<close> and \<open>B -> A: pong\<close> and the renderer
  succeeds, \<open>refine_plantuml_code\<close> returns a success whose activities are the two
  lines and whose list of actors is empty, since the block declares no participant.
\<close>

theorem scenario_c_result:
  assumes "refinement_run env (refine_prompt code message) = Inr (Text scenario_c_response)"
    and "render_plantuml_from_text env (''A -> B: ping'' @ [CHR 0x0A] @ ''B -> A: pong'') dir
           ''e2e_test_diagram'' = Inr img"
  shows "refine_plantuml_code env code message dir =
     Returned \<lparr>success = True,
               plantuml_code = Some (''A -> B: ping'' @ [CHR 0x0A] @ ''B -> A: pong''),
               plantuml_image = Some (''/static/'' @ path_name img),
               actors = [],
               activities = [''A -> B: ping'', ''B -> A: pong''],
               error = None\<rparr>"
  using assms scenario_c_extract scenario_c_actors scenario_c_activities
  by (simp add: refine_plantuml_code_def refine_body_def extract_render_analyze_def
        extract_from_content_def catch_all_def success_result_def)

theorem scenario_c_result_witness:
  "refinement_run scenario_c_env (refine_prompt ''A -> B: ping'' ''add a reply'') =
     Inr (Text scenario_c_response) \<and>
   render_plantuml_from_text scenario_c_env (''A -> B: ping'' @ [CHR 0x0A] @ ''B -> A: pong'')
     ''static'' ''e2e_test_diagram'' = Inr ''static/e2e_test_diagram.png'' \<and>
   refine_plantuml_code scenario_c_env ''A -> B: ping'' ''add a reply'' ''static'' =
     Returned \<lparr>success = True,
               plantuml_code = Some (''A -> B: ping'' @ [CHR 0x0A] @ ''B -> A: pong''),
               plantuml_image = Some (''/static/'' @ path_name ''static/e2e_test_diagram.png''),
               actors = [],
               activities = [''A -> B: ping'', ''B -> A: pong''],
               error = None\<rparr>"
proof -
  have a: "refinement_run scenario_c_env (refine_prompt ''A -> B: ping'' ''add a reply'') =
     Inr (Text scenario_c_response)"
    by (simp add: scenario_c_env_def)
  have b: "render_plantuml_from_text scenario_c_env
     (''A -> B: ping'' @ [CHR 0x0A] @ ''B -> A: pong'') ''static'' ''e2e_test_diagram'' =
     Inr ''static/e2e_test_diagram.png''"
    by (simp add: scenario_c_env_def)
  from scenario_c_result[OF a b] a b show ?thesis by simp
qed

text \<open>
  Claim C9 as stated fails: in scenario C the result does not list the actors
  \<open>A\<close> and \<open>B\<close>.
\<close>

theorem scenario_c_actors_not_inferred:
  "\<not> (\<exists>r. refine_plantuml_code scenario_c_env ''A -> B: ping'' ''add a reply'' ''static'' =
            Returned r \<and>
          actors r = [''A'', ''B''] \<and>
          activities r = [''A -> B: ping'', ''B -> A: pong''] \<and> success r)"
proof -
  have "refine_plantuml_code scenario_c_env ''A -> B: ping'' ''add a reply'' ''static'' =
     Returned (success_result (''A -> B: ping'' @ [CHR 0x0A] @ ''B -> A: pong'')
                 ''static/e2e_test_diagram.png'')"
    using scenario_c_extract
    by (simp add: refine_plantuml_code_def refine_body_def extract_render_analyze_def
          extract_from_content_def catch_all_def scenario_c_env_def)
  then show ?thesis using scenario_c_actors by (auto simp: success_result_def)
qed

section \<open>Extraction of fenced blocks\<close>







text \<open>
  Claim C7 fails on the code: the hint is pasted into the regular expression as it
  is, so that the hint \<open>(\<close> gives a pattern that does not compile, and \<open>re.search\<close>
  raises \<open>re.error\<close>.
\<close>

theorem unbalanced_hint_raises:
  "extract_code_block ''x'' (Some ''('') =
     Raised (ReError ''missing ), unterminated subpattern at position 3'')"
  by code_simp

section \<open>The analyzer: participants and activities\<close>



text \<open>
  Claim C6: for every diagram source, \<open>_extract_activities_from_plantuml\<close> returns the
  lines of the source that contain both \<open>->\<close> and \<open>:\<close>, each trimmed, in the order of
  the source; for a source written as lines that each end with a line feed, these
  are the lines as written.
\<close>

theorem activities_are_the_arrow_lines:
  "extract_activities_from_plantuml code =
     map strip (filter (\<lambda>l. sublist ''->'' l \<and> sublist '':'' l) (splitlines code)) \<and>
   (list_all (\<lambda>l. \<not> list_ex is_linebreak l) ls \<longrightarrow>
      extract_activities_from_plantuml (concat (map (\<lambda>l. l @ [CHR 0x0A]) ls)) =
        map strip (filter (\<lambda>l. sublist ''->'' l \<and> sublist '':'' l) ls))"
proof (intro conjI impI)
  show "extract_activities_from_plantuml code =
     map strip (filter (\<lambda>l. sublist ''->'' l \<and> sublist '':'' l) (splitlines code))"
    by (simp only: extract_activities_from_plantuml_def activity_lines_filter)
next
  assume "list_all (\<lambda>l. \<not> list_ex is_linebreak l) ls"
  then have "splitlines (concat (map (\<lambda>l. l @ [CHR 0x0A]) ls)) = ls"
    unfolding splitlines_def by (rule splitlines_terminated)
  then show "extract_activities_from_plantuml (concat (map (\<lambda>l. l @ [CHR 0x0A]) ls)) =
        map strip (filter (\<lambda>l. sublist ''->'' l \<and> sublist '':'' l) ls)"
    by (simp only: extract_activities_from_plantuml_def activity_lines_filter)
qed

text \<open>Claim C6 at a source of six lines, two of which have both tokens.\<close>

theorem activities_are_the_arrow_lines_witness:
  "list_all (\<lambda>l. \<not> list_ex is_linebreak l)
     [''@startuml'', ''  A -> B: ping  '', ''note over A: wait'', ''B -> A'', ''B --> A: pong'',
      ''@enduml''] \<and>
   extract_activities_from_plantuml
     (concat (map (\<lambda>l. l @ [CHR 0x0A])
        [''@startuml'', ''  A -> B: ping  '', ''note over A: wait'', ''B -> A'', ''B --> A: pong'',
         ''@enduml''])) =
     [''A -> B: ping'', ''B --> A: pong'']"
proof -
  let ?ls = "[''@startuml'', ''  A -> B: ping  '', ''note over A: wait'', ''B -> A'',
              ''B --> A: pong'', ''@enduml'']"
  have a: "list_all (\<lambda>l. \<not> list_ex is_linebreak l) ?ls" by code_simp
  have b: "map strip (filter (\<lambda>l. sublist ''->'' l \<and> sublist '':'' l) ?ls) =
           [''A -> B: ping'', ''B --> A: pong'']"
    by code_simp
  from activities_are_the_arrow_lines[of "[]" ?ls] a b show ?thesis by simp
qed

text \<open>
  Claim C8: the empty source has no participant and no activity, and a source in
  which none of the eight keywords occurs, in any letter case, has no participant,
  whatever its activities are.
\<close>

theorem no_keyword_no_participant:
  "extract_actors_from_plantuml [] = [] \<and>
   extract_activities_from_plantuml [] = [] \<and>
   ((\<forall>kw\<in>set participant_keywords. \<not> sublist (map ci_lower kw) (map ci_lower code)) \<longrightarrow>
      extract_actors_from_plantuml code = [])"
proof (intro conjI impI)
  show "extract_activities_from_plantuml [] = []"
    by (simp add: extract_activities_from_plantuml_def splitlines_def)
next
  assume "\<forall>kw\<in>set participant_keywords. \<not> sublist (map ci_lower kw) (map ci_lower code)"
  then show "extract_actors_from_plantuml code = []"
    by (intro no_keyword_no_actor) blast
next
  have "\<And>kw. kw \<in> set participant_keywords \<Longrightarrow> \<not> sublist (map ci_lower kw) (map ci_lower [])"
    by (auto simp: participant_keywords_def)
  then show "extract_actors_from_plantuml [] = []"
    by (rule no_keyword_no_actor)
qed

text \<open>Claim C8 at a source of two activity lines: two activities, no participant.\<close>

theorem no_keyword_no_participant_witness:
  "list_all (\<lambda>kw. \<not> sublist (map ci_lower kw)
                     (map ci_lower (''A -> B: ping'' @ [CHR 0x0A] @ ''B -> A: pong'')))
     participant_keywords \<and>
   extract_actors_from_plantuml (''A -> B: ping'' @ [CHR 0x0A] @ ''B -> A: pong'') = [] \<and>
   extract_activities_from_plantuml (''A -> B: ping'' @ [CHR 0x0A] @ ''B -> A: pong'') =
     [''A -> B: ping'', ''B -> A: pong'']"
proof -
  have a: "list_all (\<lambda>kw. \<not> sublist (map ci_lower kw)
                     (map ci_lower (''A -> B: ping'' @ [CHR 0x0A] @ ''B -> A: pong'')))
     participant_keywords"
    by code_simp
  then have a': "\<forall>kw\<in>set participant_keywords.
      \<not> sublist (map ci_lower kw) (map ci_lower (''A -> B: ping'' @ [CHR 0x0A] @ ''B -> A: pong''))"
    by (simp only: list_all_iff)
  have b: "extract_activities_from_plantuml (''A -> B: ping'' @ [CHR 0x0A] @ ''B -> A: pong'') =
     [''A -> B: ping'', ''B -> A: pong'']"
    by code_simp
  from no_keyword_no_participant[of "''A -> B: ping'' @ [CHR 0x0A] @ ''B -> A: pong''"] a a' b
  show ?thesis by blast
qed

section \<open>Letter case of participant names\<close>

text \<open>
  Claim C10: the keyword is matched in any letter case, but the names are compared
  as they are written: for the source of the two lines \<open>participant User\<close> and
  \<open>PARTICIPANT user\<close> the result lists \<open>User\<close> and \<open>user\<close> as two participants.
\<close>

theorem actors_differing_in_case_are_distinct:
  "extract_actors_from_plantuml (''participant User'' @ [CHR 0x0A] @ ''PARTICIPANT user'') =
     [''User'', ''user'']"
  by code_simp

end
